theory Spec2Isabelle
  imports Complex_Main "HOL-Library.Word" "HOL-Library.Sublist"
begin

section \<open>JavaScript strings\<close>

text \<open>
  A JavaScript string is a sequence of 16-bit code units. \<open>js\<close> writes an ASCII literal
  of the source as such a sequence.
\<close>

type_synonym js_string = "16 word list"

definition js :: "string \<Rightarrow> js_string" where
  "js s = map of_char s"

text \<open>
  The characters matched by \<open>\s\<close> in a regular expression, which are also the ones
  removed by \<open>String.prototype.trim\<close> and skipped by \<open>parseInt\<close> (WhiteSpace and
  LineTerminator of ECMAScript): TAB, LF, VT, FF, CR, SP, NBSP, U+1680, U+2000..U+200A,
  U+2028, U+2029, U+202F, U+205F, U+3000 and U+FEFF.
\<close>

definition is_ws :: "16 word \<Rightarrow> bool" where
  "is_ws c = (c = 0x9 \<or> c = 0xA \<or> c = 0xB \<or> c = 0xC \<or> c = 0xD \<or> c = 0x20 \<or> c = 0xA0
     \<or> c = 0x1680 \<or> (0x2000 \<le> c \<and> c \<le> 0x200A) \<or> c = 0x2028 \<or> c = 0x2029
     \<or> c = 0x202F \<or> c = 0x205F \<or> c = 0x3000 \<or> c = 0xFEFF)"

text \<open>\<open>s.trim()\<close>\<close>

definition trim :: "js_string \<Rightarrow> js_string" where
  "trim s = rev (dropWhile is_ws (rev (dropWhile is_ws s)))"

text \<open>
  \<open>s.replace(/\s+/g, '_')\<close>: scanning from the left, every maximal run of white space
  becomes one underscore (code unit 0x5F).
\<close>

function replace_ws_runs :: "js_string \<Rightarrow> js_string" where
  "replace_ws_runs [] = []"
| "replace_ws_runs (c # cs) =
     (if is_ws c then 0x5F # replace_ws_runs (dropWhile is_ws cs)
      else c # replace_ws_runs cs)"
  by pat_completeness auto
termination
  by (relation "measure length") (auto simp: length_dropWhile_le less_Suc_eq_le)

text \<open>
  The expression \<open>themeInput.value.trim().replace(/\s+/g, '_')\<close> of \<open>displayImage\<close>
  (line 60) and \<open>downloadAsPdf\<close> (line 162), applied to the value of the theme input.
\<close>

definition sanitize :: "js_string \<Rightarrow> js_string" where
  "sanitize s = replace_ws_runs (trim s)"

text \<open>
  The decimal text of an integer, as a template literal prints a number. (JavaScript
  switches to exponent notation from \<open>10^21\<close> on; page indices never get there.)
\<close>

function dec_nat :: "nat \<Rightarrow> js_string" where
  "dec_nat n = (if n < 10 then [of_nat (48 + n)] else dec_nat (n div 10) @ [of_nat (48 + n mod 10)])"
  by pat_completeness auto
termination
  by (relation "measure id") auto

declare dec_nat.simps [simp del]

definition num_str :: "int \<Rightarrow> js_string" where
  "num_str i = (if i < 0 then js ''-'' @ dec_nat (nat (- i)) else dec_nat (nat i))"

text \<open>
  \<open>parseInt(s, 10)\<close>: leading white space is skipped, one sign is read, then the longest
  run of decimal digits; no digit gives \<open>NaN\<close>, which is \<open>None\<close> here. Numbers are the
  mathematical integers (the source's doubles are exact below \<open>2^53\<close>).
\<close>

definition is_digit :: "16 word \<Rightarrow> bool" where
  "is_digit c = (0x30 \<le> c \<and> c \<le> 0x39)"

definition digits_val :: "js_string \<Rightarrow> int" where
  "digits_val ds = foldl (\<lambda>a c. 10 * a + (uint c - 48)) 0 ds"

definition parseInt :: "js_string \<Rightarrow> int option" where
  "parseInt s =
     (let t = dropWhile is_ws s;
          (neg, u) = (case t of
                        [] \<Rightarrow> (False, t)
                      | c # cs \<Rightarrow> if c = 0x2D then (True, cs)
                                 else if c = 0x2B then (False, cs)
                                 else (False, t));
          ds = takeWhile is_digit u
      in if ds = [] then None
         else Some (if neg then - digits_val ds else digits_val ds))"

section \<open>The page, the image service and the state\<close>

text \<open>
  One \<open>div.coloring-page\<close> of the gallery, as \<open>displayImage\<close> builds it: the class
  \<open>book-cover\<close>, the \<open>img\<close> element and the download link. \<open>page_index\<close> keeps the
  \<open>index\<close> argument of the call, which the page shows in its download name.
\<close>

record page =
  page_isCover :: bool
  page_index :: int
  img_src :: js_string
  img_alt :: js_string
  link_href :: js_string
  link_download :: js_string

text \<open>The argument of \<open>ai.models.generateImages\<close>.\<close>

record request =
  model :: js_string
  prompt :: js_string
  numberOfImages :: int
  outputMimeType :: js_string
  aspectRatio :: js_string

text \<open>
  What the awaited call gives back. The promise is rejected (the \<open>await\<close> throws), or it
  resolves to a response whose \<open>generatedImages\<close> is absent (\<open>None\<close>) or a list. An
  entry of the list carries \<open>image.imageBytes\<close>, or has no \<open>image\<close> (\<open>None\<close>), in which
  case reading \<open>image.image.imageBytes\<close> throws a TypeError.
\<close>

type_synonym generated_image = "js_string option"

datatype response = Rejected js_string | Resolved "generated_image list option"

text \<open>What the \<open>try\<close> block can throw.\<close>

datatype thrown = Error js_string | TypeError | Rejection js_string

text \<open>
  The module's variable \<open>isLoading\<close>, the properties of the DOM elements the code reads
  and writes, and two logs of what the code sends out: the requests made to the image
  service and the values passed to \<open>console.error\<close>.
\<close>

record state =
  isLoading :: bool
  themeInput_value :: js_string
  pagesInput_value :: js_string
  generateBtn_disabled :: bool
  btnText_textContent :: js_string
  spinner_hidden :: bool
  gallery :: "page list"
  galleryPlaceholder_hidden :: bool
  errorMessage_textContent :: js_string
  errorMessage_hidden :: bool
  downloadControls_hidden :: bool
  requests :: "request list"
  console :: "thrown list"

section \<open>The functions of the page\<close>

definition setLoading :: "bool \<Rightarrow> js_string \<Rightarrow> state \<Rightarrow> state" where
  "setLoading loading message st =
     st\<lparr>isLoading := loading,
        generateBtn_disabled := loading,
        spinner_hidden := \<not> loading,
        btnText_textContent := (if \<not> loading then js ''Create Book'' else message)\<rparr>"

definition displayError :: "js_string \<Rightarrow> state \<Rightarrow> state" where
  "displayError message st =
     st\<lparr>errorMessage_textContent := message,
        errorMessage_hidden := False,
        galleryPlaceholder_hidden := True\<rparr>"

definition clearGallery :: "state \<Rightarrow> state" where
  "clearGallery st =
     st\<lparr>gallery := [], errorMessage_hidden := True, downloadControls_hidden := True\<rparr>"

definition displayImage :: "js_string \<Rightarrow> js_string \<Rightarrow> int \<Rightarrow> bool \<Rightarrow> state \<Rightarrow> state" where
  "displayImage imageUrl altText index isCover st =
     st\<lparr>gallery := gallery st @
        [\<lparr>page_isCover = isCover,
          page_index = index,
          img_src = imageUrl,
          img_alt = altText,
          link_href = imageUrl,
          link_download = sanitize (themeInput_value st) @ js ''_''
            @ (if isCover then js ''cover'' else js ''page_'' @ num_str index) @ js ''.jpg''\<rparr>]\<rparr>"

definition generateImages :: "request \<Rightarrow> state \<Rightarrow> state" where
  "generateImages req st = st\<lparr>requests := requests st @ [req]\<rparr>"

definition coverPrompt :: "js_string \<Rightarrow> js_string" where
  "coverPrompt theme =
     js ''A vibrant and colorful 3D book cover for a children's coloring book. The title is \"''
     @ theme
     @ js '' Coloring Book\". The style is playful, friendly, and appealing to kids aged 3-10.''"

definition coloringPagePrompt :: "js_string \<Rightarrow> js_string" where
  "coloringPagePrompt theme =
     js ''A black and white coloring book page for a child, thick clean lines, no shading or color. The theme is \"''
     @ theme
     @ js ''\". The page features a fun, friendly, and appealing design with a simple background.''"

definition image_request :: "js_string \<Rightarrow> int \<Rightarrow> request" where
  "image_request p n =
     \<lparr>model = js ''imagen-3.0-generate-002'',
      prompt = p,
      numberOfImages = n,
      outputMimeType = js ''image/jpeg'',
      aspectRatio = js ''3:4''\<rparr>"

definition data_url :: "js_string \<Rightarrow> js_string" where
  "data_url base64ImageBytes = js ''data:image/jpeg;base64,'' @ base64ImageBytes"

subsection \<open>generateColoringBook\<close>

text \<open>
  \<open>generateColoringBook\<close> is an \<open>async\<close> function: it runs until its next \<open>await\<close>,
  gives the control back, and goes on when the awaited call settles. Each piece between
  two \<open>await\<close>s is one function here. A suspended run is the \<open>await\<close> it stands at, with
  the local variables it still needs.
\<close>

datatype cont =
    AwaitCover js_string int
  | AwaitBatch js_string int int

datatype outcome = Succeeded | Failed thrown

datatype progress = Suspended cont | Finished outcome

text \<open>Lines 130 to 135: the \<open>catch\<close> clause and then the \<open>finally\<close> clause.\<close>

definition catch_finally :: "thrown \<Rightarrow> state \<Rightarrow> progress \<times> state" where
  "catch_finally e st =
     (let st1 = st\<lparr>console := console st @ [e]\<rparr>;
          st2 = displayError (js ''An error occurred while creating your coloring book. Please check the console for details and try again.'') st1
      in (Finished (Failed e), setLoading False (js ''Create Book'') st2))"

text \<open>Lines 71 to 87: from the call to the first \<open>await\<close>.\<close>

definition generateColoringBook :: "js_string \<Rightarrow> int \<Rightarrow> state \<Rightarrow> cont \<times> state" where
  "generateColoringBook theme numPages st =
     (let st1 = setLoading True (js ''Starting...'') st;
          st2 = clearGallery st1;
          st3 = st2\<lparr>galleryPlaceholder_hidden := True\<rparr>;
          st4 = setLoading True (js ''Creating cover...'') st3;
          st5 = generateImages (image_request (coverPrompt theme) 1) st4
      in (AwaitCover theme numPages, st5))"

text \<open>
  Lines 102 to 114 and 128: the head of the \<open>for\<close> loop at index \<open>i\<close>. Either the next
  batch is requested, or the loop is over, the download controls are shown and the
  \<open>finally\<close> clause runs.
\<close>

definition batch_loop :: "js_string \<Rightarrow> int \<Rightarrow> int \<Rightarrow> state \<Rightarrow> progress \<times> state" where
  "batch_loop theme pagesToGenerate i st =
     (if i < pagesToGenerate then
        (let batchSize = 4;
             currentBatchSize = min batchSize (pagesToGenerate - i);
             st1 = setLoading True
                     (js ''Creating pages '' @ num_str (i + 1) @ js ''-''
                        @ num_str (i + currentBatchSize) @ js ''...'') st;
             st2 = generateImages (image_request (coloringPagePrompt theme) currentBatchSize) st1
         in (Suspended (AwaitBatch theme pagesToGenerate i), st2))
      else
        (Finished Succeeded,
         setLoading False (js ''Create Book'') (st\<lparr>downloadControls_hidden := False\<rparr>)))"

text \<open>
  Lines 117 to 122: \<open>generatedImages.forEach\<close>. An entry with no \<open>image\<close> throws, after
  the entries before it were displayed.
\<close>

fun forEach_display ::
  "js_string \<Rightarrow> int \<Rightarrow> int \<Rightarrow> generated_image list \<Rightarrow> state \<Rightarrow> thrown option \<times> state" where
  "forEach_display theme i batchIndex [] st = (None, st)"
| "forEach_display theme i batchIndex (img # imgs) st =
     (let pageIndex = i + batchIndex + 1 in
      case img of
        None \<Rightarrow> (Some TypeError, st)
      | Some base64ImageBytes \<Rightarrow>
          forEach_display theme i (batchIndex + 1) imgs
            (displayImage (data_url base64ImageBytes)
               (js ''Coloring page for theme \"'' @ theme @ js ''\", page '' @ num_str pageIndex)
               pageIndex False st))"

text \<open>
  The run goes on with what the awaited call gave: lines 89 to 98 after the cover request,
  lines 116 to 125 and the next turn of the loop after a batch request.
\<close>

fun resume :: "cont \<Rightarrow> response \<Rightarrow> state \<Rightarrow> progress \<times> state" where
  "resume (AwaitCover theme numPages) (Rejected reason) st = catch_finally (Rejection reason) st"
| "resume (AwaitCover theme numPages) (Resolved generatedImages) st =
     (case generatedImages of
        Some (img # _) \<Rightarrow>
          (case img of
             None \<Rightarrow> catch_finally TypeError st
           | Some base64ImageBytes \<Rightarrow>
               batch_loop theme (numPages - 1) 0
                 (displayImage (data_url base64ImageBytes)
                    (js ''Cover for '' @ theme @ js '' coloring book'') 0 True st))
      | _ \<Rightarrow> catch_finally (Error (js ''Failed to generate the book cover.'')) st)"
| "resume (AwaitBatch theme pagesToGenerate i) (Rejected reason) st =
     catch_finally (Rejection reason) st"
| "resume (AwaitBatch theme pagesToGenerate i) (Resolved generatedImages) st =
     (case generatedImages of
        Some (img # imgs) \<Rightarrow>
          (case forEach_display theme i 0 (img # imgs) st of
             (Some e, st1) \<Rightarrow> catch_finally e st1
           | (None, st1) \<Rightarrow> batch_loop theme pagesToGenerate (i + 4) st1)
      | _ \<Rightarrow> catch_finally
               (Error (js ''Failed to generate pages in batch starting at index '' @ num_str i @ js ''.'')) st)"

text \<open>
  A whole run: the call, then one response of the service after the other until the run
  is over or the responses are used up (the run is then still waiting).
\<close>

fun run_rest :: "progress \<Rightarrow> response list \<Rightarrow> state \<Rightarrow> progress \<times> state" where
  "run_rest (Finished out) rs st = (Finished out, st)"
| "run_rest (Suspended k) [] st = (Suspended k, st)"
| "run_rest (Suspended k) (r # rs) st = (case resume k r st of (p, st1) \<Rightarrow> run_rest p rs st1)"

definition runGeneration :: "js_string \<Rightarrow> int \<Rightarrow> response list \<Rightarrow> state \<Rightarrow> progress \<times> state" where
  "runGeneration theme numPages rs st =
     (case generateColoringBook theme numPages st of (k, st1) \<Rightarrow> run_rest (Suspended k) rs st1)"

subsection \<open>downloadAsPdf\<close>

text \<open>
  The calls made to the jsPDF library, in order. \<open>AddImage\<close> carries the arguments of
  \<open>doc.addImage(imageData, format, x, y, width, height, alias, compression)\<close>; the alias is
  always \<open>undefined\<close> and is left out. Lengths are in millimetres, as real numbers.
\<close>

record placement =
  pl_imageData :: js_string
  pl_format :: js_string
  pl_x :: real
  pl_y :: real
  pl_width :: real
  pl_height :: real
  pl_compression :: js_string

datatype pdf_call =
    NewDoc js_string js_string js_string
  | AddPage
  | AddImage placement
  | Save js_string

text \<open>
  \<open>pageWidth\<close> and \<open>pageHeight\<close> are what \<open>doc.internal.pageSize\<close> answers for the
  document just created; the library decides them, so they are parameters. The function
  gives the calls it makes; the early return of line 140 makes none.
\<close>

definition downloadAsPdf :: "real \<Rightarrow> real \<Rightarrow> state \<Rightarrow> pdf_call list" where
  "downloadAsPdf pageWidth pageHeight st =
     (let coloringPages = map img_src (filter (\<lambda>p. \<not> page_isCover p) (gallery st)) in
      if length coloringPages = 0 then []
      else
        (let margin = 10;
             imgWidth = pageWidth - margin * 2;
             imgHeight = pageHeight - margin * 2
         in [NewDoc (js ''portrait'') (js ''mm'') (js ''a4'')]
            @ concat (map (\<lambda>(index, src).
                            (if index > 0 then [AddPage] else [])
                            @ [AddImage \<lparr>pl_imageData = src, pl_format = js ''JPEG'',
                                         pl_x = margin, pl_y = margin,
                                         pl_width = imgWidth, pl_height = imgHeight,
                                         pl_compression = js ''FAST''\<rparr>])
                      (enumerate 0 coloringPages))
            @ [Save (sanitize (themeInput_value st) @ js ''_coloring_book.pdf'')]))"

text \<open>
  What the library does with these calls, as its documentation describes it: a new
  document has one empty page, \<open>addPage\<close> appends an empty page and makes it the current
  one, \<open>addImage\<close> draws on the current page, which is the last one. The result is the
  list of pages, each with the images drawn on it.
\<close>

fun pdf_call_effect :: "placement list list \<Rightarrow> pdf_call \<Rightarrow> placement list list" where
  "pdf_call_effect pages (NewDoc orientation unit format) = [[]]"
| "pdf_call_effect pages AddPage = pages @ [[]]"
| "pdf_call_effect pages (AddImage pl) =
     (if pages = [] then [] else butlast pages @ [last pages @ [pl]])"
| "pdf_call_effect pages (Save filename) = pages"

definition pdf_pages :: "pdf_call list \<Rightarrow> placement list list" where
  "pdf_pages calls = foldl pdf_call_effect [] calls"

subsection \<open>The submit listener and the events of the page\<close>

text \<open>
  The page as a whole: the state and the runs of \<open>generateColoringBook\<close> that were
  started and are waiting at an \<open>await\<close>.
\<close>

record system =
  sys_state :: state
  sys_runs :: "cont list"

text \<open>
  Line 182 tests \<open>numPages > 0\<close>, where \<open>numPages\<close> may be \<open>NaN\<close>: the comparison is
  then false.
\<close>

definition greater_zero :: "int option \<Rightarrow> bool" where
  "greater_zero numPages = (case numPages of None \<Rightarrow> False | Some n \<Rightarrow> n > 0)"

text \<open>Lines 175 to 187. A string is truthy when it is not empty.\<close>

definition submit_listener :: "system \<Rightarrow> system" where
  "submit_listener sys =
     (let st = sys_state sys in
      if isLoading st then sys
      else
        (let theme = trim (themeInput_value st);
             numPages = parseInt (pagesInput_value st)
         in if theme \<noteq> [] \<and> greater_zero numPages then
              (case generateColoringBook theme (the numPages) st of
                 (k, st1) \<Rightarrow> sys\<lparr>sys_state := st1, sys_runs := sys_runs sys @ [k]\<rparr>)
            else
              sys\<lparr>sys_state :=
                    displayError (js ''Please enter a valid theme and number of pages.'') st\<rparr>))"

text \<open>
  What can happen to the page: the form is submitted, the request a waiting run stands
  at settles (the run is named by its position among the waiting ones), or the user
  edits one of the two inputs.
\<close>

datatype event =
    Submit
  | Settle nat response
  | InputTheme js_string
  | InputPages js_string

fun step :: "system \<Rightarrow> event \<Rightarrow> system" where
  "step sys Submit = submit_listener sys"
| "step sys (Settle k r) =
     (if k < length (sys_runs sys) then
        (case resume (sys_runs sys ! k) r (sys_state sys) of
           (Suspended c, st1) \<Rightarrow> sys\<lparr>sys_state := st1, sys_runs := (sys_runs sys)[k := c]\<rparr>
         | (Finished out, st1) \<Rightarrow>
             sys\<lparr>sys_state := st1, sys_runs := take k (sys_runs sys) @ drop (Suc k) (sys_runs sys)\<rparr>)
      else sys)"
| "step sys (InputTheme s) = sys\<lparr>sys_state := (sys_state sys)\<lparr>themeInput_value := s\<rparr>\<rparr>"
| "step sys (InputPages s) = sys\<lparr>sys_state := (sys_state sys)\<lparr>pagesInput_value := s\<rparr>\<rparr>"

definition exec :: "event list \<Rightarrow> system \<Rightarrow> system" where
  "exec evs sys = foldl step sys evs"

text \<open>
  The page once loaded, with the two inputs filled in: nothing is running, the gallery is
  empty and nothing was sent yet. (Which elements the HTML hides at first is not in the
  source; the examples use this state, the theorems hold for every state.)
\<close>

definition page_loaded :: "js_string \<Rightarrow> js_string \<Rightarrow> state" where
  "page_loaded theme pages =
     \<lparr>isLoading = False,
      themeInput_value = theme,
      pagesInput_value = pages,
      generateBtn_disabled = False,
      btnText_textContent = js ''Create Book'',
      spinner_hidden = True,
      gallery = [],
      galleryPlaceholder_hidden = False,
      errorMessage_textContent = [],
      errorMessage_hidden = True,
      downloadControls_hidden = True,
      requests = [],
      console = []\<rparr>"

section \<open>Notions used in the statements\<close>

text \<open>
  A word is a non-empty string without white space; a theme is a list of words, each
  but the last followed by a gap, which is a non-empty string of white space.
\<close>

definition is_word :: "js_string \<Rightarrow> bool" where
  "is_word w = (w \<noteq> [] \<and> list_all (\<lambda>c. \<not> is_ws c) w)"

definition well_spaced :: "(js_string \<times> js_string) list \<Rightarrow> bool" where
  "well_spaced wgs =
     list_all (\<lambda>(w, g). w \<noteq> [] \<and> list_all (\<lambda>c. \<not> is_ws c) w \<and> g \<noteq> [] \<and> list_all is_ws g) wgs"

text \<open>
  Kinds of responses. The test of lines 89 and 116 fails on an absent or empty list. A
  batch response passes it and is displayed whole when the list is not empty and every
  entry has its image; for the cover only the first entry is read.
\<close>

definition empty_or_absent :: "response \<Rightarrow> bool" where
  "empty_or_absent r = (r = Resolved None \<or> r = Resolved (Some []))"

definition batch_ok :: "response \<Rightarrow> bool" where
  "batch_ok r =
     (case r of Resolved (Some imgs) \<Rightarrow> imgs \<noteq> [] \<and> list_all (\<lambda>g. g \<noteq> None) imgs | _ \<Rightarrow> False)"

definition cover_ok :: "response \<Rightarrow> bool" where
  "cover_ok r = (case r of Resolved (Some (Some bytes # rest)) \<Rightarrow> True | _ \<Rightarrow> False)"

text \<open>The number of images a response carries.\<close>

definition returned_count :: "response \<Rightarrow> nat" where
  "returned_count r = (case r of Resolved (Some imgs) \<Rightarrow> length imgs | _ \<Rightarrow> 0)"

text \<open>The run is waiting at an \<open>await\<close>.\<close>

definition suspended :: "progress \<Rightarrow> bool" where
  "suspended p = (case p of Suspended k \<Rightarrow> True | Finished out \<Rightarrow> False)"

text \<open>
  The loop entered at index \<open>i\<close> and fed with responses, the state in which a batch
  request was just made, the state in which the cover request was just made, and the
  state a successful run ends in.
\<close>

definition loop_run :: "js_string \<Rightarrow> int \<Rightarrow> int \<Rightarrow> response list \<Rightarrow> state \<Rightarrow> progress \<times> state" where
  "loop_run theme ptg i rs st = (case batch_loop theme ptg i st of (p, st1) \<Rightarrow> run_rest p rs st1)"

definition issue_batch :: "js_string \<Rightarrow> int \<Rightarrow> int \<Rightarrow> state \<Rightarrow> state" where
  "issue_batch theme ptg i st = snd (batch_loop theme ptg i st)"

definition issue_cover :: "js_string \<Rightarrow> int \<Rightarrow> state \<Rightarrow> state" where
  "issue_cover theme numPages st = snd (generateColoringBook theme numPages st)"

definition finish :: "state \<Rightarrow> state" where
  "finish st = setLoading False (js ''Create Book'') (st\<lparr>downloadControls_hidden := False\<rparr>)"

text \<open>
  The sizes of the batches still to request when the loop stands at index \<open>i\<close>, by the
  arithmetic of the specification: \<open>min(4, remaining)\<close> for each of the
  \<open>ceil(remaining / 4)\<close> batches.
\<close>

definition batch_sizes_from :: "int \<Rightarrow> int \<Rightarrow> int list" where
  "batch_sizes_from ptg i =
     map (\<lambda>j. min 4 (ptg - (i + 4 * int j))) [0..<nat ((ptg - i + 3) div 4)]"

text \<open>
  The busy state and the export controls, by what a run has come to: busy and hidden
  while it waits, idle and shown after a success, idle and hidden with the error shown
  after a failure.
\<close>

definition status_ok :: "progress \<times> state \<Rightarrow> bool" where
  "status_ok res =
     (case res of
        (Suspended k, st') \<Rightarrow>
          isLoading st' \<and> generateBtn_disabled st' \<and> downloadControls_hidden st'
      | (Finished Succeeded, st') \<Rightarrow>
          \<not> isLoading st' \<and> \<not> generateBtn_disabled st' \<and> \<not> downloadControls_hidden st'
      | (Finished (Failed e), st') \<Rightarrow>
          \<not> isLoading st' \<and> \<not> generateBtn_disabled st' \<and> downloadControls_hidden st'
            \<and> \<not> errorMessage_hidden st')"

text \<open>
  The requests of a run as the specification words them: one cover request, then
  \<open>ceil((pageCount - 1) / 4)\<close> batch requests, the batch at offset \<open>4 * j\<close> asking for
  \<open>min(4, pagesToGenerate - 4 * j)\<close> images.
\<close>

definition planned_requests :: "js_string \<Rightarrow> int \<Rightarrow> request list" where
  "planned_requests theme pageCount =
     image_request (coverPrompt theme) 1
     # map (\<lambda>j. image_request (coloringPagePrompt theme) (min 4 (pageCount - 1 - 4 * int j)))
         [0..<nat \<lceil>real_of_int (pageCount - 1) / 4\<rceil>]"

text \<open>
  The batch requests a run has made between two states, each with the response it got:
  the k-th request of the run is answered by the k-th response, and the first exchange
  is the cover's. An exchange is exact when the response carries as many images as the
  request asked for.
\<close>

definition batch_exchanges :: "state \<Rightarrow> state \<Rightarrow> response list \<Rightarrow> (request \<times> response) list" where
  "batch_exchanges st st' rs = tl (zip (drop (length (requests st)) (requests st')) rs)"

definition exact_count :: "request \<times> response \<Rightarrow> bool" where
  "exact_count qr = (case qr of (q, r) \<Rightarrow> int (returned_count r) = numberOfImages q)"

text \<open>
  The images the document export selects, and the placement the specification describes:
  the image at a margin of 10 on every side, stretched over what is left of the page.
\<close>

definition coloring_images :: "state \<Rightarrow> js_string list" where
  "coloring_images st = map img_src (filter (\<lambda>p. \<not> page_isCover p) (gallery st))"

definition fitted :: "real \<Rightarrow> real \<Rightarrow> js_string \<Rightarrow> placement" where
  "fitted pageWidth pageHeight src =
     \<lparr>pl_imageData = src, pl_format = js ''JPEG'',
      pl_x = 10, pl_y = 10,
      pl_width = pageWidth - 10 - 10, pl_height = pageHeight - 10 - 10,
      pl_compression = js ''FAST''\<rparr>"

text \<open>A gallery page for the examples.\<close>

definition sample_page :: "bool \<Rightarrow> int \<Rightarrow> string \<Rightarrow> page" where
  "sample_page c i s =
     \<lparr>page_isCover = c, page_index = i, img_src = js s, img_alt = js ''alt'',
      link_href = js s, link_download = js ''file.jpg''\<rparr>"

text \<open>
  At most one run is waiting, and the busy flag is set exactly when one is.
\<close>

definition one_run :: "system \<Rightarrow> bool" where
  "one_run sys = (length (sys_runs sys) \<le> 1 \<and> isLoading (sys_state sys) = (sys_runs sys \<noteq> []))"

text \<open>
  The inputs of a submission the specification calls invalid: the theme is empty once
  trimmed, or the page count is not a number above 0.
\<close>

definition invalid_submission :: "state \<Rightarrow> bool" where
  "invalid_submission st =
     (trim (themeInput_value st) = []
      \<or> (case parseInt (pagesInput_value st) of None \<Rightarrow> True | Some n \<Rightarrow> n \<le> 0))"

section \<open>Lemmas\<close>

subsection \<open>Trimming and replacing white space\<close>

lemma not_ws_underscore: "\<not> is_ws 0x5F"
  by (simp add: is_ws_def)

lemma dropWhile_none: "\<forall>c\<in>set s. \<not> P c \<Longrightarrow> dropWhile P s = s"
  by (cases s) auto

lemma replace_ws_runs_id: "\<forall>c\<in>set s. \<not> is_ws c \<Longrightarrow> replace_ws_runs s = s"
  by (induction s) auto

lemma replace_ws_runs_no_ws: "c \<in> set (replace_ws_runs s) \<Longrightarrow> \<not> is_ws c"
  by (induction s rule: replace_ws_runs.induct) (auto simp: not_ws_underscore split: if_splits)

lemma trim_id: "\<forall>c\<in>set s. \<not> is_ws c \<Longrightarrow> trim s = s"
  by (simp add: trim_def dropWhile_none)

lemma sanitize_no_ws: "\<forall>c\<in>set (sanitize s). \<not> is_ws c"
  by (auto simp: sanitize_def dest: replace_ws_runs_no_ws)

lemma sanitize_idem: "sanitize (sanitize s) = sanitize s"
  unfolding sanitize_def [of "sanitize s"]
  by (simp add: trim_id [OF sanitize_no_ws] replace_ws_runs_id [OF sanitize_no_ws])

lemma dropWhile_stop: "xs \<noteq> [] \<Longrightarrow> \<not> P (hd xs) \<Longrightarrow> dropWhile P (xs @ ys) = xs @ ys"
  by (cases xs) auto

lemma trim_core:
  assumes "list_all is_ws lead" "list_all is_ws trail"
    and "body \<noteq> []" "\<not> is_ws (hd body)" "\<not> is_ws (last body)"
  shows "trim (lead @ body @ trail) = body"
proof -
  have 1: "dropWhile is_ws (lead @ body @ trail) = body @ trail"
    using assms by (simp add: dropWhile_append2 list_all_iff dropWhile_stop)
  have "dropWhile is_ws (rev trail @ rev body) = dropWhile is_ws (rev body)"
    by (rule dropWhile_append2) (use assms(2) in \<open>simp add: list_all_iff\<close>)
  also have "\<dots> = rev body"
    using assms(3,5) dropWhile_stop [of "rev body" is_ws "[]"] by (simp add: hd_rev)
  finally have 2: "dropWhile is_ws (rev trail @ rev body) = rev body" .
  show ?thesis by (simp add: trim_def 1 2)
qed

lemma dropWhile_all: "list_all P s \<Longrightarrow> dropWhile P s = []"
  by (induction s) auto

lemma trim_all_ws: "list_all is_ws s \<Longrightarrow> trim s = []"
  by (simp add: trim_def dropWhile_all)

lemma replace_word: "list_all (\<lambda>c. \<not> is_ws c) w \<Longrightarrow> replace_ws_runs (w @ rest) = w @ replace_ws_runs rest"
  by (induction w) auto

lemma replace_gap:
  assumes "g \<noteq> []" "list_all is_ws g" "rest \<noteq> []" "\<not> is_ws (hd rest)"
  shows "replace_ws_runs (g @ rest) = 0x5F # replace_ws_runs rest"
proof -
  obtain c g' where g: "g = c # g'" using assms(1) by (cases g) auto
  have "dropWhile is_ws (g' @ rest) = rest"
    using assms g by (simp add: list_all_iff dropWhile_stop [of rest _ "[]", simplified])
  then show ?thesis using assms g by simp
qed

lemma body_hd:
  assumes "well_spaced wgs" "is_word lw"
  shows "concat (map (\<lambda>(w, g). w @ g) wgs) @ lw \<noteq> [] \<and> \<not> is_ws (hd (concat (map (\<lambda>(w, g). w @ g) wgs) @ lw))"
  using assms by (cases wgs) (auto simp: well_spaced_def is_word_def list_all_iff hd_append)

lemma body_last:
  assumes "is_word lw"
  shows "\<not> is_ws (last (concat (map (\<lambda>(w, g). w @ g) wgs) @ lw))"
  using assms by (auto simp: is_word_def list_all_iff)

lemma replace_body:
  assumes "well_spaced wgs" "is_word lw"
  shows "replace_ws_runs (concat (map (\<lambda>(w, g). w @ g) wgs) @ lw) = concat (map (\<lambda>(w, g). w @ [0x5F]) wgs) @ lw"
  using assms
proof (induction wgs)
  case Nil
  then show ?case by (simp add: is_word_def replace_ws_runs_id list_all_iff)
next
  case (Cons a wgs)
  obtain w g where a: "a = (w, g)" by (cases a)
  from Cons.prems a have ws: "well_spaced wgs" and w: "list_all (\<lambda>c. \<not> is_ws c) w"
    and g: "g \<noteq> []" "list_all is_ws g"
    by (simp_all add: well_spaced_def)
  note hd = body_hd [OF ws Cons.prems(2)]
  have "replace_ws_runs (g @ (concat (map (\<lambda>(w, g). w @ g) wgs) @ lw))
      = 0x5F # replace_ws_runs (concat (map (\<lambda>(w, g). w @ g) wgs) @ lw)"
    using replace_gap [OF g] hd by blast
  then show ?case
    using Cons.IH [OF ws Cons.prems(2)] by (simp add: a replace_word [OF w])
qed

lemma sanitize_words:
  assumes "list_all is_ws lead" "list_all is_ws trail" "well_spaced wgs" "is_word lw"
  shows "sanitize (lead @ concat (map (\<lambda>(w, g). w @ g) wgs) @ lw @ trail) = concat (map (\<lambda>(w, g). w @ [0x5F]) wgs) @ lw"
proof -
  have "trim (lead @ (concat (map (\<lambda>(w, g). w @ g) wgs) @ lw) @ trail) = concat (map (\<lambda>(w, g). w @ g) wgs) @ lw"
    using trim_core [OF assms(1,2)] body_hd [OF assms(3,4)] body_last [OF assms(4)] by blast
  then show ?thesis
    by (simp add: sanitize_def replace_body [OF assms(3,4)])
qed

subsection \<open>Displaying the images of a response\<close>

lemma displayImage_gallery:
  "\<exists>p. displayImage url alt idx c st = st\<lparr>gallery := gallery st @ [p]\<rparr>
     \<and> page_index p = idx \<and> page_isCover p = c \<and> img_src p = url"
  unfolding displayImage_def
  by (rule exI [of _ "\<lparr>page_isCover = c, page_index = idx, img_src = url, img_alt = alt,
          link_href = url, link_download = sanitize (themeInput_value st) @ js ''_''
            @ (if c then js ''cover'' else js ''page_'' @ num_str idx) @ js ''.jpg''\<rparr>"]) simp

lemma forEach_display_good:
  "list_all (\<lambda>g. g \<noteq> None) imgs \<Longrightarrow>
   \<exists>ps. forEach_display theme i b imgs st = (None, st\<lparr>gallery := gallery st @ ps\<rparr>)
      \<and> map page_index ps = [i + b + 1 .. i + b + int (length imgs)]
      \<and> list_all (\<lambda>p. \<not> page_isCover p) ps
      \<and> map img_src ps = map (\<lambda>g. data_url (the g)) imgs"
proof (induction imgs arbitrary: b st)
  case Nil
  show ?case by (rule exI [of _ "[]"]) simp
next
  case (Cons g imgs)
  then obtain bytes where g: "g = Some bytes" by auto
  obtain p where p: "displayImage (data_url bytes)
       (js ''Coloring page for theme \"'' @ theme @ js ''\", page '' @ num_str (i + b + 1))
       (i + b + 1) False st = st\<lparr>gallery := gallery st @ [p]\<rparr>"
     "page_index p = i + b + 1" "page_isCover p = False" "img_src p = data_url bytes"
    using displayImage_gallery by blast
  from Cons.prems have "list_all (\<lambda>g. g \<noteq> None) imgs" by simp
  from Cons.IH [OF this, of "b + 1" "st\<lparr>gallery := gallery st @ [p]\<rparr>"]
  obtain ps where ps: "forEach_display theme i (b + 1) imgs (st\<lparr>gallery := gallery st @ [p]\<rparr>)
        = (None, st\<lparr>gallery := gallery st @ [p] @ ps\<rparr>)"
      "map page_index ps = [i + (b + 1) + 1 .. i + (b + 1) + int (length imgs)]"
      "list_all (\<lambda>p. \<not> page_isCover p) ps"
      "map img_src ps = map (\<lambda>g. data_url (the g)) imgs"
    by auto
  have "[i + b + 1 .. i + b + int (length (g # imgs))]
      = (i + b + 1) # [i + (b + 1) + 1 .. i + (b + 1) + int (length imgs)]"
    by (subst upto_rec1) (simp_all add: add.commute add.left_commute)
  then show ?case
    by (intro exI [of _ "p # ps"]) (simp add: g p ps Let_def)
qed

lemma forEach_display_bad:
  "\<not> list_all (\<lambda>g. g \<noteq> None) imgs \<Longrightarrow>
   \<exists>ps. forEach_display theme i b imgs st = (Some TypeError, st\<lparr>gallery := gallery st @ ps\<rparr>)"
proof (induction imgs arbitrary: b st)
  case Nil
  then show ?case by simp
next
  case (Cons g imgs)
  show ?case
  proof (cases g)
    case None
    show ?thesis by (rule exI [of _ "[]"]) (simp add: None)
  next
    case (Some bytes)
    obtain p where p: "displayImage (data_url bytes)
       (js ''Coloring page for theme \"'' @ theme @ js ''\", page '' @ num_str (i + b + 1))
       (i + b + 1) False st = st\<lparr>gallery := gallery st @ [p]\<rparr>"
      using displayImage_gallery by blast
    from Cons.prems Some have "\<not> list_all (\<lambda>g. g \<noteq> None) imgs" by simp
    from Cons.IH [OF this, of "b + 1" "st\<lparr>gallery := gallery st @ [p]\<rparr>"]
    obtain ps where "forEach_display theme i (b + 1) imgs (st\<lparr>gallery := gallery st @ [p]\<rparr>)
        = (Some TypeError, st\<lparr>gallery := gallery st @ [p] @ ps\<rparr>)"
      by auto
    then show ?thesis
      by (intro exI [of _ "p # ps"]) (simp add: Some p Let_def)
  qed
qed

subsection \<open>One turn of the loop\<close>

lemma batch_loop_issue:
  "i < ptg \<Longrightarrow> batch_loop theme ptg i st = (Suspended (AwaitBatch theme ptg i), issue_batch theme ptg i st)"
  by (simp add: issue_batch_def batch_loop_def Let_def)

lemma issue_batch_fields:
  assumes "i < ptg"
  shows "requests (issue_batch theme ptg i st)
           = requests st @ [image_request (coloringPagePrompt theme) (min 4 (ptg - i))]"
    and "gallery (issue_batch theme ptg i st) = gallery st"
    and "isLoading (issue_batch theme ptg i st)"
    and "generateBtn_disabled (issue_batch theme ptg i st)"
    and "downloadControls_hidden (issue_batch theme ptg i st) = downloadControls_hidden st"
    and "errorMessage_hidden (issue_batch theme ptg i st) = errorMessage_hidden st"
    and "console (issue_batch theme ptg i st) = console st"
  using assms
  by (simp_all add: issue_batch_def batch_loop_def Let_def setLoading_def generateImages_def)

lemma catch_finally_fields:
  assumes "catch_finally e st = (p, st')"
  shows "p = Finished (Failed e)"
    and "requests st' = requests st"
    and "gallery st' = gallery st"
    and "\<not> isLoading st'"
    and "\<not> generateBtn_disabled st'"
    and "spinner_hidden st'"
    and "downloadControls_hidden st' = downloadControls_hidden st"
    and "\<not> errorMessage_hidden st'"
    and "console st' = console st @ [e]"
  using assms
  by (auto simp: catch_finally_def Let_def setLoading_def displayError_def)

lemma loop_run_done:
  "\<not> i < ptg \<Longrightarrow> loop_run theme ptg i rs st
     = (Finished Succeeded, setLoading False (js ''Create Book'') (st\<lparr>downloadControls_hidden := False\<rparr>))"
  by (simp add: loop_run_def batch_loop_def)

lemma loop_run_Nil:
  "i < ptg \<Longrightarrow> loop_run theme ptg i [] st = (Suspended (AwaitBatch theme ptg i), issue_batch theme ptg i st)"
  by (simp add: loop_run_def batch_loop_issue)

lemma run_rest_catch: "catch_finally e st = (p, st') \<Longrightarrow> run_rest p rs st' = (p, st')"
  by (auto simp: catch_finally_def Let_def)

lemma loop_run_ok:
  assumes "i < ptg" "batch_ok r"
  shows "\<exists>ps. loop_run theme ptg i (r # rs) st
            = loop_run theme ptg (i + 4) rs ((issue_batch theme ptg i st)\<lparr>gallery := gallery st @ ps\<rparr>)
          \<and> map page_index ps = [i + 1 .. i + int (returned_count r)]
          \<and> list_all (\<lambda>p. \<not> page_isCover p) ps"
proof -
  from assms(2) obtain imgs where "r = Resolved (Some imgs)" "imgs \<noteq> []" "list_all (\<lambda>g. g \<noteq> None) imgs"
    by (auto simp: batch_ok_def split: response.splits option.splits)
  then obtain g gs where r: "r = Resolved (Some (g # gs))" and good: "list_all (\<lambda>g. g \<noteq> None) (g # gs)"
    by (cases imgs) auto
  let ?st = "issue_batch theme ptg i st"
  from forEach_display_good [OF good, of theme i 0 ?st]
  obtain ps where ps: "forEach_display theme i 0 (g # gs) ?st = (None, ?st\<lparr>gallery := gallery ?st @ ps\<rparr>)"
     "map page_index ps = [i + 0 + 1 .. i + 0 + int (length (g # gs))]"
     "list_all (\<lambda>p. \<not> page_isCover p) ps"
    by blast
  have "loop_run theme ptg i (r # rs) st
      = loop_run theme ptg (i + 4) rs (?st\<lparr>gallery := gallery ?st @ ps\<rparr>)"
    by (simp add: loop_run_def [of theme ptg i] batch_loop_issue [OF assms(1)] r ps(1)
          loop_run_def [of theme ptg "i + 4", symmetric] del: forEach_display.simps)
  with ps(2,3) show ?thesis
    by (intro exI [of _ ps]) (simp add: issue_batch_fields [OF assms(1)] r returned_count_def)
qed

lemma loop_run_bad:
  assumes "i < ptg" "\<not> batch_ok r"
  shows "\<exists>e ps. loop_run theme ptg i (r # rs) st
            = catch_finally e ((issue_batch theme ptg i st)\<lparr>gallery := gallery st @ ps\<rparr>)
          \<and> (empty_or_absent r \<longrightarrow> ps = []
               \<and> e = Error (js ''Failed to generate pages in batch starting at index '' @ num_str i @ js ''.''))"
proof -
  let ?st = "issue_batch theme ptg i st"
  have same: "?st\<lparr>gallery := gallery st @ []\<rparr> = ?st"
    using issue_batch_fields(2) [OF assms(1), of theme st] by simp
  have "(\<exists>reason. r = Rejected reason) \<or> empty_or_absent r
      \<or> (\<exists>g gs. r = Resolved (Some (g # gs)) \<and> \<not> list_all (\<lambda>g. g \<noteq> None) (g # gs))"
  proof (cases r)
    case (Rejected reason)
    then show ?thesis by simp
  next
    case (Resolved x)
    show ?thesis
    proof (cases x)
      case None
      with Resolved show ?thesis by (simp add: empty_or_absent_def)
    next
      case (Some imgs)
      with Resolved assms(2) show ?thesis
        by (cases imgs) (simp_all add: empty_or_absent_def batch_ok_def)
    qed
  qed
  then consider (rej) reason where "r = Rejected reason" | (emp) "empty_or_absent r"
    | (mal) g gs where "r = Resolved (Some (g # gs))" "\<not> list_all (\<lambda>g. g \<noteq> None) (g # gs)"
    by blast
  then show ?thesis
  proof cases
    case rej
    have "loop_run theme ptg i (r # rs) st = catch_finally (Rejection reason) ?st"
      by (simp add: loop_run_def batch_loop_issue [OF assms(1)] rej run_rest_catch split: prod.splits)
    then show ?thesis
      using same rej by (intro exI [of _ "Rejection reason"] exI [of _ "[]"]) (simp add: empty_or_absent_def)
  next
    case emp
    have "loop_run theme ptg i (r # rs) st
        = catch_finally (Error (js ''Failed to generate pages in batch starting at index '' @ num_str i @ js ''.'')) ?st"
      using emp
      by (auto simp: loop_run_def batch_loop_issue [OF assms(1)] empty_or_absent_def run_rest_catch split: prod.splits)
    then show ?thesis
      using same
      by (intro exI [of _ "Error (js ''Failed to generate pages in batch starting at index '' @ num_str i @ js ''.'')"]
            exI [of _ "[]"]) simp
  next
    case mal
    from forEach_display_bad [OF mal(2), of theme i 0 ?st]
    obtain ps where ps: "forEach_display theme i 0 (g # gs) ?st = (Some TypeError, ?st\<lparr>gallery := gallery ?st @ ps\<rparr>)"
      by blast
    have "loop_run theme ptg i (r # rs) st = catch_finally TypeError (?st\<lparr>gallery := gallery ?st @ ps\<rparr>)"
      by (simp add: loop_run_def batch_loop_issue [OF assms(1)] mal(1) ps run_rest_catch
            del: forEach_display.simps split: prod.splits)
    then show ?thesis
      using mal(1)
      by (intro exI [of _ TypeError] exI [of _ ps])
         (simp add: issue_batch_fields [OF assms(1)] empty_or_absent_def)
  qed
qed

subsection \<open>The loop as a whole\<close>

lemma batch_sizes_from_done: "\<not> i < ptg \<Longrightarrow> batch_sizes_from ptg i = []"
  by (simp add: batch_sizes_from_def)

lemma batch_sizes_from_step:
  assumes "i < ptg"
  shows "batch_sizes_from ptg i = min 4 (ptg - i) # batch_sizes_from ptg (i + 4)"
proof -
  have n: "nat ((ptg - i + 3) div 4) = Suc (nat ((ptg - (i + 4) + 3) div 4))"
    using assms by linarith
  show ?thesis
    unfolding batch_sizes_from_def n
    by (simp add: upt_conv_Cons map_Suc_upt [symmetric] del: upt_Suc) (simp add: algebra_simps)
qed

lemma loop_requests:
  "loop_run theme ptg i rs st = (p, st') \<Longrightarrow>
   \<exists>m \<le> length (batch_sizes_from ptg i).
     requests st' = requests st
        @ map (image_request (coloringPagePrompt theme)) (take m (batch_sizes_from ptg i))
     \<and> (p = Finished Succeeded \<longrightarrow> m = length (batch_sizes_from ptg i))"
proof (induction rs arbitrary: i st)
  case Nil
  show ?case
  proof (cases "i < ptg")
    case True
    with Nil have "st' = issue_batch theme ptg i st" "p = Suspended (AwaitBatch theme ptg i)"
      by (simp_all add: loop_run_Nil)
    then show ?thesis
      using True
      by (intro exI [of _ 1]) (simp add: issue_batch_fields batch_sizes_from_step)
  next
    case False
    with Nil show ?thesis
      by (intro exI [of _ 0]) (auto simp: loop_run_done batch_sizes_from_done setLoading_def)
  qed
next
  case (Cons r rs)
  show ?case
  proof (cases "i < ptg")
    case False
    with Cons.prems show ?thesis
      by (intro exI [of _ 0]) (auto simp: loop_run_done batch_sizes_from_done setLoading_def)
  next
    case True
    note step = batch_sizes_from_step [OF True]
    show ?thesis
    proof (cases "batch_ok r")
      case True
      from loop_run_ok [OF \<open>i < ptg\<close> True, of theme rs st]
      obtain ps where "loop_run theme ptg i (r # rs) st
          = loop_run theme ptg (i + 4) rs ((issue_batch theme ptg i st)\<lparr>gallery := gallery st @ ps\<rparr>)"
        by blast
      with Cons.prems
      have "loop_run theme ptg (i + 4) rs ((issue_batch theme ptg i st)\<lparr>gallery := gallery st @ ps\<rparr>) = (p, st')"
        by simp
      from Cons.IH [OF this]
      obtain m where m: "m \<le> length (batch_sizes_from ptg (i + 4))"
        "requests st' = requests (issue_batch theme ptg i st)
           @ map (image_request (coloringPagePrompt theme)) (take m (batch_sizes_from ptg (i + 4)))"
        "p = Finished Succeeded \<longrightarrow> m = length (batch_sizes_from ptg (i + 4))"
        by auto
      then show ?thesis
        by (intro exI [of _ "Suc m"]) (simp add: step issue_batch_fields [OF \<open>i < ptg\<close>])
    next
      case False
      from loop_run_bad [OF \<open>i < ptg\<close> False, of theme rs st]
      obtain e ps where "loop_run theme ptg i (r # rs) st
          = catch_finally e ((issue_batch theme ptg i st)\<lparr>gallery := gallery st @ ps\<rparr>)"
        by blast
      with Cons.prems
      have "catch_finally e ((issue_batch theme ptg i st)\<lparr>gallery := gallery st @ ps\<rparr>) = (p, st')"
        by simp
      from catch_finally_fields(1,2) [OF this]
      show ?thesis
        by (intro exI [of _ 1]) (simp add: step issue_batch_fields [OF \<open>i < ptg\<close>])
    qed
  qed
qed

lemma loop_run_cases [case_names over wait good bad]:
  assumes "\<And>i rs st. \<not> i < ptg \<Longrightarrow> P i rs st (Finished Succeeded, finish st)"
    and "\<And>i st. i < ptg \<Longrightarrow> P i [] st (Suspended (AwaitBatch theme ptg i), issue_batch theme ptg i st)"
    and "\<And>i r rs st ps. i < ptg \<Longrightarrow> batch_ok r
            \<Longrightarrow> map page_index ps = [i + 1 .. i + int (returned_count r)]
            \<Longrightarrow> list_all (\<lambda>p. \<not> page_isCover p) ps
            \<Longrightarrow> P (i + 4) rs ((issue_batch theme ptg i st)\<lparr>gallery := gallery st @ ps\<rparr>)
                  (loop_run theme ptg (i + 4) rs ((issue_batch theme ptg i st)\<lparr>gallery := gallery st @ ps\<rparr>))
            \<Longrightarrow> P i (r # rs) st
                  (loop_run theme ptg (i + 4) rs ((issue_batch theme ptg i st)\<lparr>gallery := gallery st @ ps\<rparr>))"
    and "\<And>i r rs st e ps. i < ptg \<Longrightarrow> \<not> batch_ok r
            \<Longrightarrow> (empty_or_absent r \<longrightarrow> ps = []
                  \<and> e = Error (js ''Failed to generate pages in batch starting at index '' @ num_str i @ js ''.''))
            \<Longrightarrow> P i (r # rs) st
                  (catch_finally e ((issue_batch theme ptg i st)\<lparr>gallery := gallery st @ ps\<rparr>))"
  shows "P i rs st (loop_run theme ptg i rs st)"
proof (induction rs arbitrary: i st)
  case Nil
  show ?case
    using assms(1) [of i "[]" st] assms(2) [of i st]
    by (cases "i < ptg") (simp_all add: loop_run_Nil loop_run_done finish_def)
next
  case (Cons r rs)
  show ?case
  proof (cases "i < ptg")
    case False
    then show ?thesis
      using assms(1) [of i "r # rs" st] by (simp add: loop_run_done finish_def)
  next
    case True
    show ?thesis
    proof (cases "batch_ok r")
      case ok: True
      from loop_run_ok [OF True ok, of theme rs st]
      obtain ps where ps: "loop_run theme ptg i (r # rs) st
          = loop_run theme ptg (i + 4) rs ((issue_batch theme ptg i st)\<lparr>gallery := gallery st @ ps\<rparr>)"
        "map page_index ps = [i + 1 .. i + int (returned_count r)]"
        "list_all (\<lambda>p. \<not> page_isCover p) ps"
        by blast
      show ?thesis
        unfolding ps(1)
        by (rule assms(3) [OF True ok ps(2,3)]) (rule Cons.IH)
    next
      case bad: False
      from loop_run_bad [OF True bad, of theme rs st]
      obtain e ps where eps: "loop_run theme ptg i (r # rs) st
          = catch_finally e ((issue_batch theme ptg i st)\<lparr>gallery := gallery st @ ps\<rparr>)"
        "empty_or_absent r \<longrightarrow> ps = []
           \<and> e = Error (js ''Failed to generate pages in batch starting at index '' @ num_str i @ js ''.'')"
        by blast
      show ?thesis
        unfolding eps(1) by (rule assms(4) [OF True bad eps(2)])
    qed
  qed
qed

lemma finish_fields:
  "requests (finish st) = requests st"
  "gallery (finish st) = gallery st"
  "\<not> isLoading (finish st)"
  "\<not> generateBtn_disabled (finish st)"
  "spinner_hidden (finish st)"
  "\<not> downloadControls_hidden (finish st)"
  "errorMessage_hidden (finish st) = errorMessage_hidden st"
  by (simp_all add: finish_def setLoading_def)

lemma catch_finally_eq:
  "catch_finally e st = (Finished (Failed e), snd (catch_finally e st))"
  by (simp add: catch_finally_def Let_def)

lemma catch_finally_snd:
  "requests (snd (catch_finally e st)) = requests st"
  "gallery (snd (catch_finally e st)) = gallery st"
  "\<not> isLoading (snd (catch_finally e st))"
  "\<not> generateBtn_disabled (snd (catch_finally e st))"
  "spinner_hidden (snd (catch_finally e st))"
  "downloadControls_hidden (snd (catch_finally e st)) = downloadControls_hidden st"
  "\<not> errorMessage_hidden (snd (catch_finally e st))"
  by (simp_all add: catch_finally_def Let_def setLoading_def displayError_def)

lemma loop_status:
  "downloadControls_hidden st \<Longrightarrow> status_ok (loop_run theme ptg i rs st)"
proof (induction i rs st rule: loop_run_cases [where theme = theme and ptg = ptg])
  case (over i rs st)
  show ?case by (simp add: status_ok_def finish_fields)
next
  case (wait i st)
  then show ?case by (simp add: status_ok_def issue_batch_fields)
next
  case (good i r rs st ps)
  then show ?case by (simp add: issue_batch_fields)
next
  case (bad i r rs st e ps)
  then show ?case
    by (subst catch_finally_eq) (simp add: status_ok_def catch_finally_snd issue_batch_fields)
qed

lemma loop_success:
  "fst (loop_run theme ptg i rs st) = Finished Succeeded \<longrightarrow>
     length (batch_sizes_from ptg i) \<le> length rs
     \<and> list_all batch_ok (take (length (batch_sizes_from ptg i)) rs)
     \<and> (\<exists>ps. gallery (snd (loop_run theme ptg i rs st)) = gallery st @ ps
           \<and> length ps = sum_list (map returned_count (take (length (batch_sizes_from ptg i)) rs))
           \<and> list_all (\<lambda>p. \<not> page_isCover p) ps)"
proof (induction i rs st rule: loop_run_cases [where theme = theme and ptg = ptg])
  case (over i rs st)
  then show ?case by (simp add: batch_sizes_from_done finish_fields)
next
  case (wait i st)
  show ?case by simp
next
  case (good i r rs st ps)
  show ?case
  proof
    assume "fst (loop_run theme ptg (i + 4) rs (issue_batch theme ptg i st\<lparr>gallery := gallery st @ ps\<rparr>)) = Finished Succeeded"
    with good.IH obtain qs where qs: "length (batch_sizes_from ptg (i + 4)) \<le> length rs"
      "list_all batch_ok (take (length (batch_sizes_from ptg (i + 4))) rs)"
      "gallery (snd (loop_run theme ptg (i + 4) rs (issue_batch theme ptg i st\<lparr>gallery := gallery st @ ps\<rparr>)))
         = (gallery st @ ps) @ qs"
      "length qs = sum_list (map returned_count (take (length (batch_sizes_from ptg (i + 4))) rs))"
      "list_all (\<lambda>p. \<not> page_isCover p) qs"
      by auto
    have "length ps = returned_count r"
      using arg_cong [OF good.hyps(3), of length] by simp
    with qs good.hyps(2,4) show "length (batch_sizes_from ptg i) \<le> length (r # rs)
     \<and> list_all batch_ok (take (length (batch_sizes_from ptg i)) (r # rs))
     \<and> (\<exists>ps'. gallery (snd (loop_run theme ptg (i + 4) rs (issue_batch theme ptg i st\<lparr>gallery := gallery st @ ps\<rparr>))) = gallery st @ ps'
           \<and> length ps' = sum_list (map returned_count (take (length (batch_sizes_from ptg i)) (r # rs)))
           \<and> list_all (\<lambda>p. \<not> page_isCover p) ps')"
      by (simp add: batch_sizes_from_step [OF good.hyps(1)])
  qed
next
  case (bad i r rs st e ps)
  show ?case by (subst catch_finally_eq) simp
qed

lemma upto_batch:
  "i < ptg \<Longrightarrow> [i + 1 .. i + min 4 (ptg - i)] @ [i + 4 + 1 .. ptg] = [i + 1 .. (ptg::int)]"
proof (cases "ptg - i \<le> 4")
  case True
  then show ?thesis by (simp add: min_def)
next
  case False
  assume "i < ptg"
  with False have "[i + 1 .. ptg] = [i + 1 .. i + 4] @ [i + 4 + 1 .. ptg]"
    by (intro upto_split2) simp_all
  with False show ?thesis by (simp add: min_def)
qed

lemma loop_terminates:
  "length (batch_sizes_from ptg i) \<le> length rs \<longrightarrow> (\<exists>out. fst (loop_run theme ptg i rs st) = Finished out)"
proof (induction i rs st rule: loop_run_cases [where theme = theme and ptg = ptg])
  case (over i rs st)
  show ?case by simp
next
  case (wait i st)
  then show ?case by (simp add: batch_sizes_from_step)
next
  case (good i r rs st ps)
  then show ?case by (simp add: batch_sizes_from_step)
next
  case (bad i r rs st e ps)
  show ?case by (subst catch_finally_eq) simp
qed

lemma loop_suspended:
  "suspended (fst (loop_run theme ptg i rs st)) \<longrightarrow>
     list_all batch_ok rs
     \<and> fst (loop_run theme ptg i rs st) = Suspended (AwaitBatch theme ptg (i + 4 * int (length rs)))
     \<and> i + 4 * int (length rs) < ptg
     \<and> (\<exists>ps. gallery (snd (loop_run theme ptg i rs st)) = gallery st @ ps
           \<and> length ps = sum_list (map returned_count rs)
           \<and> list_all (\<lambda>p. \<not> page_isCover p) ps)"
proof (induction i rs st rule: loop_run_cases [where theme = theme and ptg = ptg])
  case (over i rs st)
  show ?case by (simp add: suspended_def)
next
  case (wait i st)
  then show ?case by (simp add: issue_batch_fields)
next
  case (good i r rs st ps)
  let ?res = "loop_run theme ptg (i + 4) rs (issue_batch theme ptg i st\<lparr>gallery := gallery st @ ps\<rparr>)"
  show ?case
  proof
    assume "suspended (fst ?res)"
    with good.IH have ih: "list_all batch_ok rs"
      "fst ?res = Suspended (AwaitBatch theme ptg (i + 4 + 4 * int (length rs)))"
      "i + 4 + 4 * int (length rs) < ptg"
      "\<exists>qs. gallery (snd ?res) = (gallery st @ ps) @ qs
         \<and> length qs = sum_list (map returned_count rs)
         \<and> list_all (\<lambda>p. \<not> page_isCover p) qs"
      by simp_all
    from ih(4) obtain qs where qs: "gallery (snd ?res) = (gallery st @ ps) @ qs"
      "length qs = sum_list (map returned_count rs)"
      "list_all (\<lambda>p. \<not> page_isCover p) qs"
      by blast
    have len: "length ps = returned_count r"
      using arg_cong [OF good.hyps(3), of length] by simp
    have idx: "i + 4 * int (length (r # rs)) = i + 4 + 4 * int (length rs)"
      by simp
    have "gallery (snd ?res) = gallery st @ (ps @ qs)
        \<and> length (ps @ qs) = sum_list (map returned_count (r # rs))
        \<and> list_all (\<lambda>p. \<not> page_isCover p) (ps @ qs)"
      using qs len good.hyps(4) by simp
    then have "\<exists>ps'. gallery (snd ?res) = gallery st @ ps'
        \<and> length ps' = sum_list (map returned_count (r # rs))
        \<and> list_all (\<lambda>p. \<not> page_isCover p) ps'"
      by blast
    with ih(1,2,3) good.hyps(2) show "list_all batch_ok (r # rs)
     \<and> fst ?res = Suspended (AwaitBatch theme ptg (i + 4 * int (length (r # rs))))
     \<and> i + 4 * int (length (r # rs)) < ptg
     \<and> (\<exists>ps'. gallery (snd ?res) = gallery st @ ps'
           \<and> length ps' = sum_list (map returned_count (r # rs))
           \<and> list_all (\<lambda>p. \<not> page_isCover p) ps')"
      unfolding idx by simp
  qed
next
  case (bad i r rs st e ps)
  show ?case by (subst catch_finally_eq) (simp add: suspended_def)
qed

subsection \<open>The run from its start\<close>

lemma generateColoringBook_eq:
  "generateColoringBook theme n st = (AwaitCover theme n, issue_cover theme n st)"
  by (simp add: issue_cover_def generateColoringBook_def Let_def)

lemma issue_cover_fields:
  "requests (issue_cover theme n st) = requests st @ [image_request (coverPrompt theme) 1]"
  "gallery (issue_cover theme n st) = []"
  "isLoading (issue_cover theme n st)"
  "generateBtn_disabled (issue_cover theme n st)"
  "downloadControls_hidden (issue_cover theme n st)"
  "errorMessage_hidden (issue_cover theme n st)"
  "console (issue_cover theme n st) = console st"
  by (simp_all add: issue_cover_def generateColoringBook_def Let_def setLoading_def
        clearGallery_def generateImages_def)

lemma run_Nil:
  "runGeneration theme n [] st = (Suspended (AwaitCover theme n), issue_cover theme n st)"
  by (simp add: runGeneration_def generateColoringBook_eq)

lemma cover_ok_cases:
  "cover_ok r \<or> empty_or_absent r \<or> (\<exists>reason. r = Rejected reason) \<or> (\<exists>rest. r = Resolved (Some (None # rest)))"
proof (cases r)
  case (Rejected reason)
  then show ?thesis by simp
next
  case (Resolved x)
  show ?thesis
  proof (cases x)
    case None
    with Resolved show ?thesis by (simp add: empty_or_absent_def)
  next
    case (Some imgs)
    show ?thesis
    proof (cases imgs)
      case Nil
      with Resolved Some show ?thesis by (simp add: empty_or_absent_def)
    next
      case (Cons g gs)
      with Resolved Some show ?thesis by (cases g) (simp_all add: cover_ok_def)
    qed
  qed
qed

lemma run_cover_ok:
  assumes "cover_ok r"
  shows "\<exists>p0. runGeneration theme n (r # rs) st
            = loop_run theme (n - 1) 0 rs ((issue_cover theme n st)\<lparr>gallery := [p0]\<rparr>)
          \<and> page_index p0 = 0 \<and> page_isCover p0"
proof -
  from assms obtain bytes rest where r: "r = Resolved (Some (Some bytes # rest))"
    by (auto simp: cover_ok_def split: response.splits option.splits list.splits)
  let ?st = "issue_cover theme n st"
  obtain p0 where p0: "displayImage (data_url bytes) (js ''Cover for '' @ theme @ js '' coloring book'') 0 True ?st
        = ?st\<lparr>gallery := gallery ?st @ [p0]\<rparr>" "page_index p0 = 0" "page_isCover p0 = True"
    using displayImage_gallery by blast
  have "runGeneration theme n (r # rs) st = loop_run theme (n - 1) 0 rs (?st\<lparr>gallery := gallery ?st @ [p0]\<rparr>)"
    by (simp add: runGeneration_def generateColoringBook_eq r p0(1) loop_run_def)
  with p0(2,3) show ?thesis
    by (intro exI [of _ p0]) (simp add: issue_cover_fields)
qed

lemma run_cover_bad:
  assumes "\<not> cover_ok r"
  shows "\<exists>e. runGeneration theme n (r # rs) st = catch_finally e (issue_cover theme n st)
          \<and> (empty_or_absent r \<longrightarrow> e = Error (js ''Failed to generate the book cover.''))"
proof -
  let ?st = "issue_cover theme n st"
  have fin: "\<And>e. (case catch_finally e ?st of (p, st1) \<Rightarrow> run_rest p rs st1) = catch_finally e ?st"
    by (simp add: run_rest_catch split: prod.splits)
  from cover_ok_cases [of r] assms
  consider (emp) "empty_or_absent r" | (rej) reason where "r = Rejected reason"
    | (mal) rest where "r = Resolved (Some (None # rest))"
    by blast
  then show ?thesis
  proof cases
    case emp
    then have "runGeneration theme n (r # rs) st
        = catch_finally (Error (js ''Failed to generate the book cover.'')) ?st"
      by (auto simp: runGeneration_def generateColoringBook_eq empty_or_absent_def fin)
    then show ?thesis by blast
  next
    case rej
    then have "runGeneration theme n (r # rs) st = catch_finally (Rejection reason) ?st"
      by (simp add: runGeneration_def generateColoringBook_eq fin)
    with rej show ?thesis by (intro exI [of _ "Rejection reason"]) (simp add: empty_or_absent_def)
  next
    case mal
    then have "runGeneration theme n (r # rs) st = catch_finally TypeError ?st"
      by (simp add: runGeneration_def generateColoringBook_eq fin)
    with mal show ?thesis by (intro exI [of _ TypeError]) (simp add: empty_or_absent_def)
  qed
qed

lemma status_ok_catch: "downloadControls_hidden st \<Longrightarrow> status_ok (catch_finally e st)"
  by (subst catch_finally_eq) (simp add: status_ok_def catch_finally_snd)

lemma run_status: "status_ok (runGeneration theme n rs st)"
proof (cases rs)
  case Nil
  then show ?thesis by (simp add: run_Nil status_ok_def issue_cover_fields)
next
  case (Cons r rs')
  show ?thesis
  proof (cases "cover_ok r")
    case True
    from run_cover_ok [OF True, of theme n rs' st] show ?thesis
      unfolding Cons using loop_status [of _ theme "n - 1" 0 rs']
      by (auto simp: issue_cover_fields)
  next
    case False
    from run_cover_bad [OF False, of theme n rs' st] show ?thesis
      unfolding Cons using status_ok_catch [of "issue_cover theme n st"]
      by (auto simp: issue_cover_fields)
  qed
qed

lemma ceil_quarter: "nat \<lceil>real_of_int k / 4\<rceil> = nat ((k + 3) div 4)"
proof -
  have "\<lceil>real_of_int k / 4\<rceil> = - (- k div 4)"
    using ceiling_divide_eq_div [of k 4] by simp
  also have "\<dots> = (k + 3) div 4" by presburger
  finally show ?thesis by simp
qed

lemma planned_requests_eq:
  "planned_requests theme n
     = image_request (coverPrompt theme) 1
       # map (image_request (coloringPagePrompt theme)) (batch_sizes_from (n - 1) 0)"
  unfolding planned_requests_def batch_sizes_from_def ceil_quarter
  by (simp add: comp_def)

lemma run_requests:
  "\<exists>m \<le> length (batch_sizes_from (n - 1) 0).
     requests (snd (runGeneration theme n rs st))
       = requests st @ take (Suc m) (planned_requests theme n)
     \<and> (fst (runGeneration theme n rs st) = Finished Succeeded \<longrightarrow> m = length (batch_sizes_from (n - 1) 0))"
proof (cases rs)
  case Nil
  then show ?thesis
    by (intro exI [of _ 0]) (simp add: run_Nil issue_cover_fields planned_requests_eq)
next
  case (Cons r rs')
  show ?thesis
  proof (cases "cover_ok r")
    case True
    from run_cover_ok [OF True, of theme n rs' st]
    obtain p0 where eq: "runGeneration theme n rs st
        = loop_run theme (n - 1) 0 rs' ((issue_cover theme n st)\<lparr>gallery := [p0]\<rparr>)"
      unfolding Cons by blast
    obtain p st' where res: "loop_run theme (n - 1) 0 rs' ((issue_cover theme n st)\<lparr>gallery := [p0]\<rparr>) = (p, st')"
      by (cases "loop_run theme (n - 1) 0 rs' ((issue_cover theme n st)\<lparr>gallery := [p0]\<rparr>)")
    from loop_requests [OF res]
    obtain m where m: "m \<le> length (batch_sizes_from (n - 1) 0)"
      "requests st' = requests (issue_cover theme n st\<lparr>gallery := [p0]\<rparr>)
          @ map (image_request (coloringPagePrompt theme)) (take m (batch_sizes_from (n - 1) 0))"
      "p = Finished Succeeded \<longrightarrow> m = length (batch_sizes_from (n - 1) 0)"
      by blast
    have "requests (snd (runGeneration theme n rs st)) = requests st @ take (Suc m) (planned_requests theme n)"
      by (simp add: eq res m(2) issue_cover_fields planned_requests_eq take_map)
    with m(1,3) show ?thesis
      unfolding eq res by (intro exI [of _ m]) simp
  next
    case False
    from run_cover_bad [OF False, of theme n rs' st]
    obtain e where e: "runGeneration theme n rs st = catch_finally e (issue_cover theme n st)"
      unfolding Cons by blast
    have "fst (runGeneration theme n rs st) = Finished (Failed e)"
      unfolding e by (subst catch_finally_eq) simp
    moreover have "requests (snd (runGeneration theme n rs st)) = requests st @ take 1 (planned_requests theme n)"
      unfolding e by (simp add: catch_finally_snd issue_cover_fields planned_requests_eq)
    ultimately show ?thesis by (intro exI [of _ 0]) simp
  qed
qed

lemma run_cover_failure:
  assumes "empty_or_absent r"
  shows "runGeneration theme n (r # rs) st
     = catch_finally (Error (js ''Failed to generate the book cover.'')) (issue_cover theme n st)"
proof -
  from assms have "\<not> cover_ok r"
    by (auto simp: empty_or_absent_def cover_ok_def)
  from run_cover_bad [OF this, of theme n rs st] assms show ?thesis by auto
qed

lemma run_terminates:
  assumes "1 + nat \<lceil>real_of_int (n - 1) / 4\<rceil> \<le> length rs"
  shows "\<exists>out. fst (runGeneration theme n rs st) = Finished out"
proof -
  from assms obtain r rs' where rs: "rs = r # rs'" by (cases rs) auto
  show ?thesis
  proof (cases "cover_ok r")
    case True
    from run_cover_ok [OF True, of theme n rs' st]
    obtain p0 where eq: "runGeneration theme n (r # rs') st
        = loop_run theme (n - 1) 0 rs' ((issue_cover theme n st)\<lparr>gallery := [p0]\<rparr>)"
      by blast
    have "length (batch_sizes_from (n - 1) 0) \<le> length rs'"
      using assms by (simp add: rs batch_sizes_from_def ceil_quarter)
    with loop_terminates [of "n - 1" 0 rs' theme] show ?thesis
      unfolding rs eq by blast
  next
    case False
    from run_cover_bad [OF False, of theme n rs' st]
    obtain e where "runGeneration theme n (r # rs') st = catch_finally e (issue_cover theme n st)"
      by blast
    then show ?thesis
      unfolding rs by (subst (asm) catch_finally_eq) simp
  qed
qed

lemma loop_exact_zip:
  "fst (loop_run theme ptg i rs st) = Finished Succeeded \<longrightarrow>
   list_all (\<lambda>(n, r). int (returned_count r) = n) (zip (batch_sizes_from ptg i) rs) \<longrightarrow>
   map page_index (gallery (snd (loop_run theme ptg i rs st))) = map page_index (gallery st) @ [i + 1 .. ptg]"
proof (induction i rs st rule: loop_run_cases [where theme = theme and ptg = ptg])
  case (over i rs st)
  then show ?case by (simp add: finish_fields)
next
  case (wait i st)
  show ?case by simp
next
  case (good i r rs st ps)
  let ?res = "loop_run theme ptg (i + 4) rs (issue_batch theme ptg i st\<lparr>gallery := gallery st @ ps\<rparr>)"
  show ?case
  proof (intro impI)
    assume fin: "fst ?res = Finished Succeeded"
      and ex: "list_all (\<lambda>(n, r). int (returned_count r) = n) (zip (batch_sizes_from ptg i) (r # rs))"
    from ex have r: "int (returned_count r) = min 4 (ptg - i)"
      and rest: "list_all (\<lambda>(n, r). int (returned_count r) = n) (zip (batch_sizes_from ptg (i + 4)) rs)"
      unfolding batch_sizes_from_step [OF good.hyps(1)] by simp_all
    from good.IH fin rest
    have "map page_index (gallery (snd ?res))
        = map page_index (gallery st @ ps) @ [i + 4 + 1 .. ptg]"
      by simp
    also have "\<dots> = map page_index (gallery st) @ ([i + 1 .. i + min 4 (ptg - i)] @ [i + 4 + 1 .. ptg])"
      using good.hyps(3) r by simp
    finally show "map page_index (gallery (snd ?res)) = map page_index (gallery st) @ [i + 1 .. ptg]"
      by (simp only: upto_batch [OF good.hyps(1)])
  qed
next
  case (bad i r rs st e ps)
  show ?case by (subst catch_finally_eq) simp
qed

lemma run_success_cover:
  assumes "fst (runGeneration theme n rs st) = Finished Succeeded"
  shows "\<exists>r rs' p0. rs = r # rs' \<and> cover_ok r \<and> page_index p0 = 0 \<and> page_isCover p0
     \<and> runGeneration theme n rs st
         = loop_run theme (n - 1) 0 rs' ((issue_cover theme n st)\<lparr>gallery := [p0]\<rparr>)"
proof (cases rs)
  case Nil
  with assms show ?thesis by (simp add: run_Nil)
next
  case (Cons r rs')
  show ?thesis
  proof (cases "cover_ok r")
    case True
    from run_cover_ok [OF True, of theme n rs' st] show ?thesis
      unfolding Cons using True by blast
  next
    case False
    from run_cover_bad [OF False, of theme n rs' st]
    obtain e where "runGeneration theme n rs st = catch_finally e (issue_cover theme n st)"
      unfolding Cons by blast
    with assms show ?thesis by (subst (asm) catch_finally_eq) simp
  qed
qed

lemma run_success_requests:
  assumes "fst (runGeneration theme n rs st) = Finished Succeeded"
  shows "requests (snd (runGeneration theme n rs st)) = requests st @ planned_requests theme n"
proof -
  from run_requests [of n theme rs st] assms
  obtain m where "requests (snd (runGeneration theme n rs st))
       = requests st @ take (Suc m) (planned_requests theme n)" "m = length (batch_sizes_from (n - 1) 0)"
    by blast
  then show ?thesis by (simp add: planned_requests_eq)
qed

lemma batch_exchanges_success:
  assumes "fst (runGeneration theme n (r # rs') st) = Finished Succeeded"
  shows "batch_exchanges st (snd (runGeneration theme n (r # rs') st)) (r # rs')
     = map (\<lambda>(k, r). (image_request (coloringPagePrompt theme) k, r)) (zip (batch_sizes_from (n - 1) 0) rs')"
  unfolding batch_exchanges_def run_success_requests [OF assms]
  by (simp add: planned_requests_eq zip_map1)

lemma list_all_not_cover: "list_all (\<lambda>p. \<not> page_isCover p) ps \<Longrightarrow> map page_isCover ps = replicate (length ps) False"
  by (induction ps) auto

lemma run_exact_pages:
  assumes "numPages > 0"
    and "fst (runGeneration theme numPages rs st) = Finished Succeeded"
    and "list_all exact_count (batch_exchanges st (snd (runGeneration theme numPages rs st)) rs)"
  shows "map page_index (gallery (snd (runGeneration theme numPages rs st))) = [0 .. numPages - 1]
       \<and> length (gallery (snd (runGeneration theme numPages rs st))) = nat numPages
       \<and> distinct (map page_index (gallery (snd (runGeneration theme numPages rs st))))
       \<and> map page_isCover (gallery (snd (runGeneration theme numPages rs st)))
           = True # replicate (nat numPages - 1) False"
proof -
  let ?g = "gallery (snd (runGeneration theme numPages rs st))"
  from run_success_cover [OF assms(2)]
  obtain r rs' p0 where rs: "rs = r # rs'" and p0: "page_index p0 = 0" "page_isCover p0"
    and eq: "runGeneration theme numPages rs st
         = loop_run theme (numPages - 1) 0 rs' ((issue_cover theme numPages st)\<lparr>gallery := [p0]\<rparr>)"
    by blast
  let ?st1 = "(issue_cover theme numPages st)\<lparr>gallery := [p0]\<rparr>"
  have fin: "fst (loop_run theme (numPages - 1) 0 rs' ?st1) = Finished Succeeded"
    using assms(2) eq by simp
  have "list_all (\<lambda>(k, r). int (returned_count r) = k) (zip (batch_sizes_from (numPages - 1) 0) rs')"
    using assms(3) batch_exchanges_success [of theme numPages r rs' st] assms(2)
    unfolding rs
    by (simp add: list.pred_map comp_def exact_count_def image_request_def case_prod_unfold)
  with loop_exact_zip [of theme "numPages - 1" 0 rs' ?st1] fin
  have "map page_index (gallery (snd (loop_run theme (numPages - 1) 0 rs' ?st1))) = 0 # [0 + 1 .. numPages - 1]"
    by (simp add: p0)
  then have idx: "map page_index ?g = [0 .. numPages - 1]"
    unfolding eq using assms(1) by (simp add: upto_rec1 [of 0 "numPages - 1"])
  from arg_cong [OF idx, of length] have len: "length ?g = nat numPages"
    using assms(1) by simp
  from loop_success [of theme "numPages - 1" 0 rs' ?st1] fin
  obtain ps where ps: "gallery (snd (loop_run theme (numPages - 1) 0 rs' ?st1)) = [p0] @ ps"
      "list_all (\<lambda>p. \<not> page_isCover p) ps"
    by auto
  have cov: "map page_isCover ?g = True # replicate (nat numPages - 1) False"
    using len unfolding eq ps(1) by (simp add: p0 list_all_not_cover [OF ps(2)])
  have "distinct (map page_index ?g)"
    unfolding idx by simp
  with idx len cov show ?thesis by blast
qed

lemma batch_loop_result:
  "fst (batch_loop theme ptg i st) = (if i < ptg then Suspended (AwaitBatch theme ptg i) else Finished Succeeded)"
  "gallery (snd (batch_loop theme ptg i st)) = gallery st"
  by (simp_all add: batch_loop_def Let_def setLoading_def generateImages_def)

lemma resume_batch_ok:
  assumes "batch_ok r"
  shows "\<exists>ps. resume (AwaitBatch theme ptg i) r st = batch_loop theme ptg (i + 4) (st\<lparr>gallery := gallery st @ ps\<rparr>)
           \<and> length ps = returned_count r"
proof -
  from assms obtain imgs where "r = Resolved (Some imgs)" "imgs \<noteq> []" "list_all (\<lambda>g. g \<noteq> None) imgs"
    by (auto simp: batch_ok_def split: response.splits option.splits)
  then obtain g gs where r: "r = Resolved (Some (g # gs))" and good: "list_all (\<lambda>g. g \<noteq> None) (g # gs)"
    by (cases imgs) auto
  from forEach_display_good [OF good, of theme i 0 st]
  obtain ps where ps: "forEach_display theme i 0 (g # gs) st = (None, st\<lparr>gallery := gallery st @ ps\<rparr>)"
     "map page_index ps = [i + 0 + 1 .. i + 0 + int (length (g # gs))]"
    by blast
  from arg_cong [OF ps(2), of length] have "length ps = returned_count r"
    by (simp add: r returned_count_def)
  moreover have "resume (AwaitBatch theme ptg i) r st = batch_loop theme ptg (i + 4) (st\<lparr>gallery := gallery st @ ps\<rparr>)"
    by (simp add: r ps(1) del: forEach_display.simps)
  ultimately show ?thesis by blast
qed

lemma run_success_length:
  assumes "fst (runGeneration theme n rs st) = Finished Succeeded"
  shows "length (gallery (snd (runGeneration theme n rs st)))
      = 1 + sum_list (map returned_count (take (nat \<lceil>real_of_int (n - 1) / 4\<rceil>) (tl rs)))"
proof -
  from run_success_cover [OF assms]
  obtain r rs' p0 where rs: "rs = r # rs'"
    and eq: "runGeneration theme n rs st
         = loop_run theme (n - 1) 0 rs' ((issue_cover theme n st)\<lparr>gallery := [p0]\<rparr>)"
    by blast
  let ?st1 = "(issue_cover theme n st)\<lparr>gallery := [p0]\<rparr>"
  have fin: "fst (loop_run theme (n - 1) 0 rs' ?st1) = Finished Succeeded"
    using assms eq by simp
  have nb: "length (batch_sizes_from (n - 1) 0) = nat \<lceil>real_of_int (n - 1) / 4\<rceil>"
    unfolding ceil_quarter by (simp add: batch_sizes_from_def)
  from loop_success [of theme "n - 1" 0 rs' ?st1] fin
  obtain ps where "gallery (snd (loop_run theme (n - 1) 0 rs' ?st1)) = [p0] @ ps"
      "length ps = sum_list (map returned_count (take (length (batch_sizes_from (n - 1) 0)) rs'))"
    by auto
  then show ?thesis
    unfolding eq nb by (simp add: rs)
qed

lemma batch_ok_count: "batch_ok r \<Longrightarrow> 1 \<le> returned_count r"
  by (auto simp: batch_ok_def returned_count_def Suc_le_eq split: response.splits option.splits)

lemma loop_first_index:
  "fst (loop_run theme ptg i rs st) = Finished Succeeded \<longrightarrow>
     (if i < ptg
      then \<exists>Q. map page_index (gallery (snd (loop_run theme ptg i rs st)))
                 = map page_index (gallery st) @ (i + 1) # Q
      else gallery (snd (loop_run theme ptg i rs st)) = gallery st)"
proof (induction i rs st rule: loop_run_cases [where theme = theme and ptg = ptg])
  case (over i rs st)
  then show ?case by (simp add: finish_fields)
next
  case (wait i st)
  show ?case by simp
next
  case (good i r rs st ps)
  let ?res = "loop_run theme ptg (i + 4) rs (issue_batch theme ptg i st\<lparr>gallery := gallery st @ ps\<rparr>)"
  show ?case
  proof
    assume fin: "fst ?res = Finished Succeeded"
    from loop_success [of theme ptg "i + 4" rs "issue_batch theme ptg i st\<lparr>gallery := gallery st @ ps\<rparr>"] fin
    obtain qs where qs: "gallery (snd ?res) = (gallery st @ ps) @ qs"
      by auto
    have "[i + 1 .. i + int (returned_count r)] = (i + 1) # [i + 1 + 1 .. i + int (returned_count r)]"
      using batch_ok_count [OF good.hyps(2)] by (intro upto_rec1) simp
    with good.hyps(3) have "map page_index (gallery (snd ?res))
        = map page_index (gallery st) @ (i + 1) # ([i + 1 + 1 .. i + int (returned_count r)] @ map page_index qs)"
      unfolding qs by simp
    with good.hyps(1)
    show "if i < ptg then \<exists>Q. map page_index (gallery (snd ?res)) = map page_index (gallery st) @ (i + 1) # Q
          else gallery (snd ?res) = gallery st"
      by simp
  qed
next
  case (bad i r rs st e ps)
  show ?case by (subst catch_finally_eq) simp
qed

lemma loop_exact_conv:
  "fst (loop_run theme ptg i rs st) = Finished Succeeded \<longrightarrow>
   map page_index (gallery (snd (loop_run theme ptg i rs st))) = map page_index (gallery st) @ [i + 1 .. ptg] \<longrightarrow>
   list_all (\<lambda>(n, r). int (returned_count r) = n) (zip (batch_sizes_from ptg i) rs)"
proof (induction i rs st rule: loop_run_cases [where theme = theme and ptg = ptg])
  case (over i rs st)
  then show ?case by (simp add: batch_sizes_from_done)
next
  case (wait i st)
  show ?case by simp
next
  case (good i r rs st ps)
  let ?st2 = "issue_batch theme ptg i st\<lparr>gallery := gallery st @ ps\<rparr>"
  let ?res = "loop_run theme ptg (i + 4) rs ?st2"
  let ?c = "int (returned_count r)"
  note step = batch_sizes_from_step [OF good.hyps(1)]
  show ?case
  proof (intro impI)
    assume fin: "fst ?res = Finished Succeeded"
      and idx: "map page_index (gallery (snd ?res)) = map page_index (gallery st) @ [i + 1 .. ptg]"
    have c1: "1 \<le> ?c"
      using batch_ok_count [OF good.hyps(2)] by simp
    from loop_success [of theme ptg "i + 4" rs ?st2] fin
    obtain qs where qs: "gallery (snd ?res) = (gallery st @ ps) @ qs"
      by auto
    let ?Q = "map page_index qs"
    have eq: "[i + 1 .. i + ?c] @ ?Q = [i + 1 .. ptg]"
      using idx good.hyps(3) unfolding qs by simp
    show "list_all (\<lambda>(n, r). int (returned_count r) = n) (zip (batch_sizes_from ptg i) (r # rs))"
    proof (cases "i + 4 < ptg")
      case True
      from loop_first_index [of theme ptg "i + 4" rs ?st2] fin True
      obtain Q' where "map page_index (gallery (snd ?res)) = map page_index (gallery ?st2) @ (i + 4 + 1) # Q'"
        by auto
      then have Q: "?Q = (i + 4 + 1) # Q'"
        unfolding qs by simp
      have "length ([i + 1 .. i + ?c] @ ?Q) = length [i + 1 .. ptg]"
        using eq by simp
      then have le: "i + 1 + ?c \<le> ptg"
        using c1 unfolding Q by simp
      have "([i + 1 .. i + ?c] @ ?Q) ! returned_count r = i + 4 + 1"
        unfolding Q using c1 by (simp add: nth_append)
      moreover have "[i + 1 .. ptg] ! returned_count r = i + 1 + ?c"
        using le by (intro nth_upto) simp
      ultimately have c4: "?c = 4"
        unfolding eq by simp
      have "[i + 1 .. i + 4] @ ?Q = [i + 1 .. i + 4] @ [i + 4 + 1 .. ptg]"
        using eq upto_batch [OF good.hyps(1)] True unfolding c4 by (simp add: min_def)
      then have "?Q = [i + 4 + 1 .. ptg]"
        by simp
      then have "map page_index (gallery (snd ?res)) = map page_index (gallery ?st2) @ [i + 4 + 1 .. ptg]"
        unfolding qs by simp
      with good.IH fin
      have "list_all (\<lambda>(n, r). int (returned_count r) = n) (zip (batch_sizes_from ptg (i + 4)) rs)"
        by simp
      with c4 True show ?thesis
        unfolding step by (simp add: min_def)
    next
      case False
      from loop_first_index [of theme ptg "i + 4" rs ?st2] fin False
      have "gallery (snd ?res) = gallery ?st2"
        by simp
      then have "qs = []"
        unfolding qs by simp
      with eq have "length [i + 1 .. i + ?c] = length [i + 1 .. ptg]"
        by simp
      then have "?c = ptg - i"
        using c1 good.hyps(1) by simp
      with False show ?thesis
        unfolding step by (simp add: batch_sizes_from_done min_def)
    qed
  qed
next
  case (bad i r rs st e ps)
  show ?case by (subst catch_finally_eq) simp
qed

lemma run_exact_iff:
  assumes "fst (runGeneration theme n rs st) = Finished Succeeded" "0 < n"
  shows "(map page_index (gallery (snd (runGeneration theme n rs st))) = [0 .. n - 1])
      = list_all exact_count (batch_exchanges st (snd (runGeneration theme n rs st)) rs)"
proof
  assume "list_all exact_count (batch_exchanges st (snd (runGeneration theme n rs st)) rs)"
  with run_exact_pages [OF assms(2,1)]
  show "map page_index (gallery (snd (runGeneration theme n rs st))) = [0 .. n - 1]"
    by blast
next
  assume idx: "map page_index (gallery (snd (runGeneration theme n rs st))) = [0 .. n - 1]"
  from run_success_cover [OF assms(1)]
  obtain r rs' p0 where rs: "rs = r # rs'" and p0: "page_index p0 = 0"
    and eq: "runGeneration theme n rs st
         = loop_run theme (n - 1) 0 rs' ((issue_cover theme n st)\<lparr>gallery := [p0]\<rparr>)"
    by blast
  let ?st1 = "(issue_cover theme n st)\<lparr>gallery := [p0]\<rparr>"
  have fin: "fst (loop_run theme (n - 1) 0 rs' ?st1) = Finished Succeeded"
    using assms(1) eq by simp
  have "[0 .. n - 1] = 0 # [0 + 1 .. n - 1]"
    using assms(2) by (intro upto_rec1) simp
  with idx have "map page_index (gallery (snd (loop_run theme (n - 1) 0 rs' ?st1)))
      = map page_index (gallery ?st1) @ [0 + 1 .. n - 1]"
    unfolding eq by (simp add: p0)
  with loop_exact_conv [of theme "n - 1" 0 rs' ?st1] fin
  have "list_all (\<lambda>(k, r). int (returned_count r) = k) (zip (batch_sizes_from (n - 1) 0) rs')"
    by blast
  then show "list_all exact_count (batch_exchanges st (snd (runGeneration theme n rs st)) rs)"
    using batch_exchanges_success [of theme n r rs' st] assms(1)
    unfolding rs
    by (simp add: list.pred_map comp_def exact_count_def image_request_def case_prod_unfold)
qed

lemma run_rest_append:
  "run_rest p (rs1 @ rs2) st = (case run_rest p rs1 st of (p', st') \<Rightarrow> run_rest p' rs2 st')"
proof (induction rs1 arbitrary: p st)
  case Nil
  show ?case by (cases p) simp_all
next
  case (Cons r rs1)
  show ?case
  proof (cases p)
    case (Suspended k)
    then show ?thesis by (simp add: Cons.IH split: prod.splits)
  next
    case (Finished out)
    then show ?thesis by simp
  qed
qed

lemma runGeneration_append:
  "runGeneration theme n (rs1 @ rs2) st
     = run_rest (fst (runGeneration theme n rs1 st)) rs2 (snd (runGeneration theme n rs1 st))"
  by (simp add: runGeneration_def run_rest_append split: prod.splits)

lemma run_suspended:
  assumes "suspended (fst (runGeneration theme n (r # rs') st))"
  shows "list_all batch_ok rs'
     \<and> fst (runGeneration theme n (r # rs') st) = Suspended (AwaitBatch theme (n - 1) (4 * int (length rs')))
     \<and> length (gallery (snd (runGeneration theme n (r # rs') st))) = 1 + sum_list (map returned_count rs')"
proof (cases "cover_ok r")
  case True
  from run_cover_ok [OF True, of theme n rs' st]
  obtain p0 where eq: "runGeneration theme n (r # rs') st
        = loop_run theme (n - 1) 0 rs' ((issue_cover theme n st)\<lparr>gallery := [p0]\<rparr>)"
    by blast
  from loop_suspended [of theme "n - 1" 0 rs' "(issue_cover theme n st)\<lparr>gallery := [p0]\<rparr>"] assms
  show ?thesis
    unfolding eq by auto
next
  case False
  from run_cover_bad [OF False, of theme n rs' st]
  obtain e where "runGeneration theme n (r # rs') st = catch_finally e (issue_cover theme n st)"
    by blast
  with assms show ?thesis
    by (subst (asm) catch_finally_eq) (simp add: suspended_def)
qed

subsection \<open>The calls of the document export\<close>

lemma later_pages:
  "0 < n \<Longrightarrow>
   concat (map (\<lambda>(index, src). (if index > 0 then [AddPage] else []) @ [AddImage (f src)]) (enumerate n xs))
     = concat (map (\<lambda>src. [AddPage, AddImage (f src)]) xs)"
  by (induction xs arbitrary: n) simp_all

lemma pdf_pages_later:
  "pages \<noteq> [] \<Longrightarrow>
   foldl pdf_call_effect pages (concat (map (\<lambda>src. [AddPage, AddImage (f src)]) xs))
     = pages @ map (\<lambda>src. [f src]) xs"
  by (induction xs arbitrary: pages) simp_all

lemma downloadAsPdf_calls:
  assumes "coloring_images st = src # srcs"
  shows "downloadAsPdf pageWidth pageHeight st
     = NewDoc (js ''portrait'') (js ''mm'') (js ''a4'')
       # AddImage (fitted pageWidth pageHeight src)
       # concat (map (\<lambda>src. [AddPage, AddImage (fitted pageWidth pageHeight src)]) srcs)
       @ [Save (sanitize (themeInput_value st) @ js ''_coloring_book.pdf'')]"
proof -
  have f: "\<lparr>pl_imageData = s, pl_format = js ''JPEG'', pl_x = 10, pl_y = 10,
        pl_width = pageWidth - 10 * 2, pl_height = pageHeight - 10 * 2, pl_compression = js ''FAST''\<rparr>
      = fitted pageWidth pageHeight s" for s
    by (simp add: fitted_def)
  have "map img_src (filter (\<lambda>p. \<not> page_isCover p) (gallery st)) = src # srcs"
    using assms by (simp add: coloring_images_def)
  then show ?thesis
    unfolding downloadAsPdf_def Let_def f
    by (simp add: later_pages [where f = "fitted pageWidth pageHeight"])
qed

subsection \<open>The busy flag and the events\<close>

lemma forEach_display_isLoading:
  "isLoading (snd (forEach_display theme i b imgs st)) = isLoading st"
  by (induction imgs arbitrary: b st) (auto simp: displayImage_def Let_def split: option.splits)

lemma catch_finally_idle: "catch_finally e st = (p, st1) \<Longrightarrow> p = Finished (Failed e) \<and> \<not> isLoading st1"
  by (auto simp: catch_finally_def Let_def setLoading_def displayError_def)

lemma batch_loop_loading:
  "batch_loop theme ptg i st = (p, st1) \<Longrightarrow> isLoading st1 = suspended p"
  by (auto simp: batch_loop_def Let_def setLoading_def generateImages_def suspended_def split: if_splits)

lemma resume_loading:
  assumes "resume k r st = (p, st1)"
  shows "isLoading st1 = suspended p"
proof (cases k)
  case (AwaitCover theme n)
  show ?thesis
  proof (cases r)
    case (Rejected reason)
    with assms AwaitCover show ?thesis
      by (auto dest!: catch_finally_idle simp: suspended_def)
  next
    case (Resolved x)
    with assms AwaitCover show ?thesis
      by (auto dest!: catch_finally_idle batch_loop_loading simp: suspended_def
            split: option.splits list.splits)
  qed
next
  case (AwaitBatch theme ptg i)
  show ?thesis
  proof (cases r)
    case (Rejected reason)
    with assms AwaitBatch show ?thesis
      by (auto dest!: catch_finally_idle simp: suspended_def)
  next
    case (Resolved x)
    with assms AwaitBatch show ?thesis
      by (auto dest!: catch_finally_idle batch_loop_loading simp: suspended_def
            simp del: forEach_display.simps
            split: option.splits list.splits prod.splits)
  qed
qed

lemma submit_busy: "isLoading (sys_state sys) \<Longrightarrow> submit_listener sys = sys"
  by (simp add: submit_listener_def)

lemma submit_one_run: "one_run sys \<Longrightarrow> one_run (submit_listener sys)"
  by (auto simp: one_run_def submit_listener_def Let_def generateColoringBook_eq issue_cover_fields
        displayError_def)

lemma settle_one_run:
  assumes "one_run sys"
  shows "one_run (step sys (Settle k r))"
proof (cases "k < length (sys_runs sys)")
  case False
  with assms show ?thesis by simp
next
  case True
  with assms obtain c where runs: "sys_runs sys = [c]" and k: "k = 0"
    by (cases "sys_runs sys") (auto simp: one_run_def)
  obtain p st1 where res: "resume c r (sys_state sys) = (p, st1)"
    by (cases "resume c r (sys_state sys)")
  from resume_loading [OF res] show ?thesis
    by (cases p) (simp_all add: runs k res one_run_def suspended_def)
qed

lemma step_one_run:
  assumes "one_run sys"
  shows "one_run (step sys ev)"
proof (cases ev)
  case Submit
  with assms show ?thesis by (simp add: submit_one_run)
next
  case (Settle k r)
  with assms show ?thesis by (simp only: settle_one_run)
next
  case (InputTheme s)
  with assms show ?thesis by (simp add: one_run_def)
next
  case (InputPages s)
  with assms show ?thesis by (simp add: one_run_def)
qed

lemma exec_one_run: "one_run sys \<Longrightarrow> one_run (exec evs sys)"
  unfolding exec_def by (induction evs arbitrary: sys) (simp_all add: step_one_run)

lemma exec_settles:
  "exec (map (Settle 0) rs) \<lparr>sys_state = st, sys_runs = [k]\<rparr>
     = (case run_rest (Suspended k) rs st of
          (Suspended k', st') \<Rightarrow> \<lparr>sys_state = st', sys_runs = [k']\<rparr>
        | (Finished out, st') \<Rightarrow> \<lparr>sys_state = st', sys_runs = []\<rparr>)"
proof (induction rs arbitrary: st k)
  case Nil
  show ?case by (simp add: exec_def)
next
  case (Cons r rs)
  obtain p st1 where res: "resume k r st = (p, st1)"
    by (cases "resume k r st")
  show ?case
  proof (cases p)
    case (Suspended k')
    with res Cons.IH [of st1 k'] show ?thesis
      by (simp add: exec_def)
  next
    case (Finished out)
    have "foldl step \<lparr>sys_state = st1, sys_runs = []\<rparr> (map (Settle 0) rs)
        = \<lparr>sys_state = st1, sys_runs = []\<rparr>"
      by (induction rs) simp_all
    with res Finished show ?thesis
      by (simp add: exec_def)
  qed
qed

lemma exec_is_runGeneration:
  assumes "\<not> isLoading st" "parseInt (pagesInput_value st) = Some n" "0 < n"
    and "trim (themeInput_value st) \<noteq> []"
  shows "exec (Submit # map (Settle 0) rs) \<lparr>sys_state = st, sys_runs = []\<rparr>
     = (case runGeneration (trim (themeInput_value st)) n rs st of
          (Suspended k', st') \<Rightarrow> \<lparr>sys_state = st', sys_runs = [k']\<rparr>
        | (Finished out, st') \<Rightarrow> \<lparr>sys_state = st', sys_runs = []\<rparr>)"
proof -
  have "exec (Submit # map (Settle 0) rs) \<lparr>sys_state = st, sys_runs = []\<rparr>
      = exec (map (Settle 0) rs) (submit_listener \<lparr>sys_state = st, sys_runs = []\<rparr>)"
    by (simp add: exec_def)
  also have "submit_listener \<lparr>sys_state = st, sys_runs = []\<rparr>
      = \<lparr>sys_state = issue_cover (trim (themeInput_value st)) n st,
         sys_runs = [AwaitCover (trim (themeInput_value st)) n]\<rparr>"
    using assms by (simp add: submit_listener_def Let_def greater_zero_def generateColoringBook_eq)
  finally show ?thesis
    by (simp add: exec_settles runGeneration_def generateColoringBook_eq)
qed

lemma resume_nonempty:
  "fst (resume (AwaitBatch theme ptg i) (Resolved (Some (g # gs))) st) \<noteq> Finished (Failed (Error m))"
proof (cases "list_all (\<lambda>g. g \<noteq> None) (g # gs)")
  case True
  then have "batch_ok (Resolved (Some (g # gs)))"
    by (simp add: batch_ok_def)
  from resume_batch_ok [OF this, of theme ptg i st]
  obtain ps where "resume (AwaitBatch theme ptg i) (Resolved (Some (g # gs))) st
      = batch_loop theme ptg (i + 4) (st\<lparr>gallery := gallery st @ ps\<rparr>)"
    by blast
  then show ?thesis
    by (simp only: batch_loop_result) simp
next
  case False
  from forEach_display_bad [OF False, of theme i 0 st]
  obtain ps where "forEach_display theme i 0 (g # gs) st = (Some TypeError, st\<lparr>gallery := gallery st @ ps\<rparr>)"
    by blast
  then have "resume (AwaitBatch theme ptg i) (Resolved (Some (g # gs))) st
      = catch_finally TypeError (st\<lparr>gallery := gallery st @ ps\<rparr>)"
    by (simp del: forEach_display.simps)
  then show ?thesis
    by (subst (asm) catch_finally_eq) simp
qed

lemma loop_succeeds:
  "length (batch_sizes_from ptg i) \<le> length rs \<longrightarrow>
   list_all batch_ok (take (length (batch_sizes_from ptg i)) rs) \<longrightarrow>
   fst (loop_run theme ptg i rs st) = Finished Succeeded"
proof (induction i rs st rule: loop_run_cases [where theme = theme and ptg = ptg])
  case (over i rs st)
  show ?case by simp
next
  case (wait i st)
  then show ?case by (simp add: batch_sizes_from_step)
next
  case (good i r rs st ps)
  then show ?case by (simp add: batch_sizes_from_step)
next
  case (bad i r rs st e ps)
  then show ?case by (simp add: batch_sizes_from_step)
qed

lemma run_succeeds:
  assumes "cover_ok r"
    and "nat \<lceil>real_of_int (n - 1) / 4\<rceil> \<le> length rs"
    and "list_all batch_ok (take (nat \<lceil>real_of_int (n - 1) / 4\<rceil>) rs)"
  shows "fst (runGeneration theme n (r # rs) st) = Finished Succeeded"
proof -
  have nb: "length (batch_sizes_from (n - 1) 0) = nat \<lceil>real_of_int (n - 1) / 4\<rceil>"
    unfolding ceil_quarter by (simp add: batch_sizes_from_def)
  from run_cover_ok [OF assms(1), of theme n rs st]
  obtain p0 where eq: "runGeneration theme n (r # rs) st
        = loop_run theme (n - 1) 0 rs ((issue_cover theme n st)\<lparr>gallery := [p0]\<rparr>)"
    by blast
  from loop_succeeds [of "n - 1" 0 rs theme] assms(2,3) show ?thesis
    unfolding eq nb by blast
qed

section \<open>Claims\<close>

subsection \<open>C1: the pages of a successful run\<close>

text \<open>
  C1, as stated, fails: the batch returns one image where four were asked for, the run
  still ends in success, and the gallery holds two pages, not five.
\<close>

theorem short_batch_counterexample:
  "fst (runGeneration (js ''Dinosaurs'') 5
        [Resolved (Some [Some (js ''c'')]), Resolved (Some [Some (js ''p1'')])]
        (page_loaded (js ''Dinosaurs'') (js ''5''))) = Finished Succeeded
   \<and> map page_index (gallery (snd (runGeneration (js ''Dinosaurs'') 5
        [Resolved (Some [Some (js ''c'')]), Resolved (Some [Some (js ''p1'')])]
        (page_loaded (js ''Dinosaurs'') (js ''5''))))) = [0, 1]
   \<and> length (gallery (snd (runGeneration (js ''Dinosaurs'') 5
        [Resolved (Some [Some (js ''c'')]), Resolved (Some [Some (js ''p1'')])]
        (page_loaded (js ''Dinosaurs'') (js ''5''))))) \<noteq> 5"
  by code_simp

text \<open>
  C1, amended. For every page count above 0, a run that ends in success and in which
  every batch response carried exactly as many images as its request asked for has
  rendered exactly \<open>pageCount\<close> pages, with the indices \<open>0, 1, ..., pageCount - 1\<close> in
  this order (so no two pages share an index), the first page being the cover and no
  other.
\<close>

theorem exact_responses_give_every_page:
  assumes "numPages > 0"
    and "fst (runGeneration theme numPages rs st) = Finished Succeeded"
    and "list_all exact_count (batch_exchanges st (snd (runGeneration theme numPages rs st)) rs)"
  shows "map page_index (gallery (snd (runGeneration theme numPages rs st))) = [0 .. numPages - 1]
       \<and> length (gallery (snd (runGeneration theme numPages rs st))) = nat numPages
       \<and> distinct (map page_index (gallery (snd (runGeneration theme numPages rs st))))
       \<and> map page_isCover (gallery (snd (runGeneration theme numPages rs st)))
           = True # replicate (nat numPages - 1) False"
  using assms by (rule run_exact_pages)

theorem exact_responses_give_every_page_witness:
  "(0::int) < 5
   \<and> fst (runGeneration (js ''Dinosaurs'') 5
        [Resolved (Some [Some (js ''c'')]),
         Resolved (Some [Some (js ''p1''), Some (js ''p2''), Some (js ''p3''), Some (js ''p4'')])]
        (page_loaded (js ''Dinosaurs'') (js ''5''))) = Finished Succeeded
   \<and> list_all exact_count (batch_exchanges (page_loaded (js ''Dinosaurs'') (js ''5''))
        (snd (runGeneration (js ''Dinosaurs'') 5
          [Resolved (Some [Some (js ''c'')]),
           Resolved (Some [Some (js ''p1''), Some (js ''p2''), Some (js ''p3''), Some (js ''p4'')])]
          (page_loaded (js ''Dinosaurs'') (js ''5''))))
        [Resolved (Some [Some (js ''c'')]),
         Resolved (Some [Some (js ''p1''), Some (js ''p2''), Some (js ''p3''), Some (js ''p4'')])])
   \<and> map page_index (gallery (snd (runGeneration (js ''Dinosaurs'') 5
        [Resolved (Some [Some (js ''c'')]),
         Resolved (Some [Some (js ''p1''), Some (js ''p2''), Some (js ''p3''), Some (js ''p4'')])]
        (page_loaded (js ''Dinosaurs'') (js ''5''))))) = [0, 1, 2, 3, 4]
   \<and> map page_isCover (gallery (snd (runGeneration (js ''Dinosaurs'') 5
        [Resolved (Some [Some (js ''c'')]),
         Resolved (Some [Some (js ''p1''), Some (js ''p2''), Some (js ''p3''), Some (js ''p4'')])]
        (page_loaded (js ''Dinosaurs'') (js ''5''))))) = [True, False, False, False, False]"
proof -
  let ?rs = "[Resolved (Some [Some (js ''c'')]),
         Resolved (Some [Some (js ''p1''), Some (js ''p2''), Some (js ''p3''), Some (js ''p4'')])]"
  let ?st = "page_loaded (js ''Dinosaurs'') (js ''5'')"
  have pos: "(0::int) < 5" by simp
  have fin: "fst (runGeneration (js ''Dinosaurs'') 5 ?rs ?st) = Finished Succeeded"
    by code_simp
  have ex: "list_all exact_count (batch_exchanges ?st (snd (runGeneration (js ''Dinosaurs'') 5 ?rs ?st)) ?rs)"
    by code_simp
  from exact_responses_give_every_page [OF pos fin ex] pos fin ex
  show ?thesis by (simp add: upto_rec1 numeral_eq_Suc)
qed

subsection \<open>C2: the requests of a run\<close>

text \<open>
  C2. The requests a run makes are, in order, one cover request and then the batch
  requests of the plan: \<open>ceil((pageCount - 1) / 4)\<close> of them, the one at offset
  \<open>4 * j\<close> asking for \<open>min(4, pagesToGenerate - 4 * j)\<close> images. Every run has made the
  cover request and never leaves the plan (a failure cuts it short: C3, C4); a run that
  ends in success has made exactly the requests of the plan, and a run ends in success
  whenever the service answers the cover request and each batch request with images.
  For 5 pages that is one batch of 4, for 9 pages batches of 4 and 4. (This holds for
  every page count, positive or not.)
\<close>

theorem batch_partitioning:
  "prefix (requests st @ [image_request (coverPrompt theme) 1])
           (requests (snd (runGeneration theme numPages rs st)))
       \<and> prefix (requests (snd (runGeneration theme numPages rs st)))
           (requests st @ planned_requests theme numPages)
       \<and> (fst (runGeneration theme numPages rs st) = Finished Succeeded \<longrightarrow>
            requests (snd (runGeneration theme numPages rs st))
              = requests st @ planned_requests theme numPages)
       \<and> length (planned_requests theme numPages) = 1 + nat \<lceil>real_of_int (numPages - 1) / 4\<rceil>
       \<and> map numberOfImages (planned_requests theme 5) = [1, 4]
       \<and> map numberOfImages (planned_requests theme 9) = [1, 4, 4]
       \<and> (cover_ok r \<and> nat \<lceil>real_of_int (numPages - 1) / 4\<rceil> \<le> length bs
             \<and> list_all batch_ok (take (nat \<lceil>real_of_int (numPages - 1) / 4\<rceil>) bs) \<longrightarrow>
            fst (runGeneration theme numPages (r # bs) st) = Finished Succeeded
            \<and> requests (snd (runGeneration theme numPages (r # bs) st))
                = requests st @ planned_requests theme numPages)"
proof -
  let ?P = "planned_requests theme numPages"
  let ?req = "requests (snd (runGeneration theme numPages rs st))"
  have len: "length ?P = Suc (length (batch_sizes_from (numPages - 1) 0))"
    by (simp add: planned_requests_eq)
  from run_requests [of numPages theme rs st]
  obtain m where m: "m \<le> length (batch_sizes_from (numPages - 1) 0)"
    "?req = requests st @ take (Suc m) ?P"
    "fst (runGeneration theme numPages rs st) = Finished Succeeded \<longrightarrow> m = length (batch_sizes_from (numPages - 1) 0)"
    by blast
  have 1: "prefix (requests st @ [image_request (coverPrompt theme) 1]) ?req"
    unfolding m(2) by (simp add: planned_requests_eq)
  have 2: "prefix ?req (requests st @ ?P)"
    unfolding m(2) by (simp add: take_is_prefix)
  have 3: "fst (runGeneration theme numPages rs st) = Finished Succeeded \<longrightarrow> ?req = requests st @ ?P"
    using m(2,3) len by simp
  have 4: "length ?P = 1 + nat \<lceil>real_of_int (numPages - 1) / 4\<rceil>"
    by (simp add: planned_requests_def)
  have 5: "map numberOfImages (planned_requests theme 5) = [1, 4]"
    by (simp add: planned_requests_def image_request_def upt_rec)
  have 6: "map numberOfImages (planned_requests theme 9) = [1, 4, 4]"
    by (simp add: planned_requests_def image_request_def upt_rec)
  have 7: "fst (runGeneration theme numPages (r # bs) st) = Finished Succeeded
        \<and> requests (snd (runGeneration theme numPages (r # bs) st)) = requests st @ ?P"
    if "cover_ok r \<and> nat \<lceil>real_of_int (numPages - 1) / 4\<rceil> \<le> length bs
        \<and> list_all batch_ok (take (nat \<lceil>real_of_int (numPages - 1) / 4\<rceil>) bs)"
  proof -
    from that have "fst (runGeneration theme numPages (r # bs) st) = Finished Succeeded"
      by (intro run_succeeds) simp_all
    then show ?thesis
      by (simp add: run_success_requests)
  qed
  from 1 2 3 4 5 6 7 show ?thesis by blast
qed

theorem batch_partitioning_witness:
  "cover_ok (Resolved (Some [Some (js ''c'')]))
   \<and> nat \<lceil>real_of_int (9 - 1) / 4\<rceil>
       \<le> length [Resolved (Some [Some (js ''p1''), Some (js ''p2''), Some (js ''p3''), Some (js ''p4'')]),
                 Resolved (Some [Some (js ''p5''), Some (js ''p6''), Some (js ''p7''), Some (js ''p8'')])]
   \<and> list_all batch_ok (take (nat \<lceil>real_of_int (9 - 1) / 4\<rceil>)
          [Resolved (Some [Some (js ''p1''), Some (js ''p2''), Some (js ''p3''), Some (js ''p4'')]),
           Resolved (Some [Some (js ''p5''), Some (js ''p6''), Some (js ''p7''), Some (js ''p8'')])])
   \<and> fst (runGeneration (js ''Space'') 9
      [Resolved (Some [Some (js ''c'')]),
       Resolved (Some [Some (js ''p1''), Some (js ''p2''), Some (js ''p3''), Some (js ''p4'')]),
       Resolved (Some [Some (js ''p5''), Some (js ''p6''), Some (js ''p7''), Some (js ''p8'')])]
      (page_loaded (js ''Space'') (js ''9''))) = Finished Succeeded
   \<and> map numberOfImages (requests (snd (runGeneration (js ''Space'') 9
      [Resolved (Some [Some (js ''c'')]),
       Resolved (Some [Some (js ''p1''), Some (js ''p2''), Some (js ''p3''), Some (js ''p4'')]),
       Resolved (Some [Some (js ''p5''), Some (js ''p6''), Some (js ''p7''), Some (js ''p8'')])]
      (page_loaded (js ''Space'') (js ''9''))))) = [1, 4, 4]"
proof -
  let ?r = "Resolved (Some [Some (js ''c'')])"
  let ?bs = "[Resolved (Some [Some (js ''p1''), Some (js ''p2''), Some (js ''p3''), Some (js ''p4'')]),
       Resolved (Some [Some (js ''p5''), Some (js ''p6''), Some (js ''p7''), Some (js ''p8'')])]"
  let ?st = "page_loaded (js ''Space'') (js ''9'')"
  have two: "nat \<lceil>real_of_int (9 - 1) / 4\<rceil> = 2"
    by simp
  have cover: "cover_ok ?r"
    by (simp add: cover_ok_def)
  have enough: "nat \<lceil>real_of_int (9 - 1) / 4\<rceil> \<le> length ?bs"
    unfolding two by simp
  have batches: "list_all batch_ok (take (nat \<lceil>real_of_int (9 - 1) / 4\<rceil>) ?bs)"
    unfolding two by (simp add: batch_ok_def)
  have none: "requests ?st = []"
    by (simp add: page_loaded_def)
  note plan = batch_partitioning [of ?st "js ''Space''" 9 "?r # ?bs" ?r ?bs]
  from plan cover enough batches
  have ok: "fst (runGeneration (js ''Space'') 9 (?r # ?bs) ?st) = Finished Succeeded"
    by blast
  with plan have "requests (snd (runGeneration (js ''Space'') 9 (?r # ?bs) ?st))
      = requests ?st @ planned_requests (js ''Space'') 9"
    by blast
  moreover from plan have "map numberOfImages (planned_requests (js ''Space'') 9) = [1, 4, 4]"
    by blast
  ultimately have sizes: "map numberOfImages (requests (snd (runGeneration (js ''Space'') 9 (?r # ?bs) ?st)))
      = [1, 4, 4]"
    by (simp add: none)
  from cover enough batches ok sizes show ?thesis
    by blast
qed

subsection \<open>C3: the cover request fails\<close>

text \<open>
  C3. If the response to the cover request has an empty or absent image list, the run
  ends at once in the failure "Failed to generate the book cover.": the cover request is
  the only request it has made (no batch request is issued, whatever responses would
  follow), nothing is rendered, the error message is shown, the export controls stay
  hidden and the busy flag is cleared.
\<close>

theorem cover_failure_aborts_run:
  assumes "empty_or_absent r"
  shows "fst (runGeneration theme numPages (r # rs) st)
           = Finished (Failed (Error (js ''Failed to generate the book cover.'')))
       \<and> requests (snd (runGeneration theme numPages (r # rs) st))
           = requests st @ [image_request (coverPrompt theme) 1]
       \<and> gallery (snd (runGeneration theme numPages (r # rs) st)) = []
       \<and> downloadControls_hidden (snd (runGeneration theme numPages (r # rs) st))
       \<and> \<not> errorMessage_hidden (snd (runGeneration theme numPages (r # rs) st))
       \<and> \<not> isLoading (snd (runGeneration theme numPages (r # rs) st))"
  unfolding run_cover_failure [OF assms]
  by (subst catch_finally_eq) (simp add: catch_finally_snd issue_cover_fields)

theorem cover_failure_aborts_run_witness:
  "empty_or_absent (Resolved (Some []))
   \<and> fst (runGeneration (js ''Space'') 9 [Resolved (Some []), Resolved (Some [Some (js ''x'')])]
            (page_loaded (js ''Space'') (js ''9'')))
       = Finished (Failed (Error (js ''Failed to generate the book cover.'')))
   \<and> map numberOfImages (requests (snd (runGeneration (js ''Space'') 9
            [Resolved (Some []), Resolved (Some [Some (js ''x'')])]
            (page_loaded (js ''Space'') (js ''9''))))) = [1]
   \<and> downloadControls_hidden (snd (runGeneration (js ''Space'') 9
            [Resolved (Some []), Resolved (Some [Some (js ''x'')])]
            (page_loaded (js ''Space'') (js ''9''))))"
  using cover_failure_aborts_run [of "Resolved (Some [])" "js ''Space''" 9
      "[Resolved (Some [Some (js ''x'')])]" "page_loaded (js ''Space'') (js ''9'')"]
  by (simp add: empty_or_absent_def page_loaded_def image_request_def)

subsection \<open>C4: a batch request fails\<close>

text \<open>
  C4. Take a run that has got its cover and is waiting for a batch, all batches before
  having passed. If the response to that batch has an empty or absent image list, the
  run ends in the failure "Failed to generate pages in batch starting at index i.",
  whatever responses would follow: no further request is made (the requests are those
  made up to the failing one), the gallery is the one of before the response, with the
  cover and every image of the batches before, the error message is shown, the export
  controls stay hidden and the busy flag is cleared.
\<close>

theorem batch_failure_aborts_run:
  assumes "suspended (fst (runGeneration theme numPages rs1 st))"
    and "rs1 \<noteq> []"
    and "empty_or_absent r"
  shows "fst (runGeneration theme numPages (rs1 @ r # rs2) st)
           = Finished (Failed (Error (js ''Failed to generate pages in batch starting at index ''
                @ num_str (4 * (int (length rs1) - 1)) @ js ''.'')))
       \<and> requests (snd (runGeneration theme numPages (rs1 @ r # rs2) st))
           = requests (snd (runGeneration theme numPages rs1 st))
       \<and> gallery (snd (runGeneration theme numPages (rs1 @ r # rs2) st))
           = gallery (snd (runGeneration theme numPages rs1 st))
       \<and> list_all batch_ok (tl rs1)
       \<and> length (gallery (snd (runGeneration theme numPages rs1 st)))
           = 1 + sum_list (map returned_count (tl rs1))
       \<and> \<not> errorMessage_hidden (snd (runGeneration theme numPages (rs1 @ r # rs2) st))
       \<and> downloadControls_hidden (snd (runGeneration theme numPages (rs1 @ r # rs2) st))
       \<and> \<not> isLoading (snd (runGeneration theme numPages (rs1 @ r # rs2) st))"
proof -
  from assms(2) obtain r0 rs' where rs1: "rs1 = r0 # rs'" by (cases rs1) auto
  let ?st1 = "snd (runGeneration theme numPages rs1 st)"
  let ?i = "4 * (int (length rs1) - 1)"
  let ?e = "Error (js ''Failed to generate pages in batch starting at index '' @ num_str ?i @ js ''.'')"
  from run_suspended [of theme numPages r0 rs' st] assms(1)
  have ok: "list_all batch_ok (tl rs1)"
    and k: "fst (runGeneration theme numPages rs1 st) = Suspended (AwaitBatch theme (numPages - 1) ?i)"
    and len: "length (gallery ?st1) = 1 + sum_list (map returned_count (tl rs1))"
    unfolding rs1 by simp_all
  have hidden: "downloadControls_hidden ?st1"
    using run_status [of theme numPages rs1 st] k
    by (cases "runGeneration theme numPages rs1 st") (simp add: status_ok_def)
  have "resume (AwaitBatch theme (numPages - 1) ?i) r ?st1 = catch_finally ?e ?st1"
    using assms(3) by (auto simp: empty_or_absent_def)
  then have eq: "runGeneration theme numPages (rs1 @ r # rs2) st = catch_finally ?e ?st1"
    unfolding runGeneration_append k by (simp add: run_rest_catch split: prod.splits)
  show ?thesis
    unfolding eq using ok len hidden
    by (subst catch_finally_eq) (simp add: catch_finally_snd)
qed

theorem batch_failure_aborts_run_witness:
  "suspended (fst (runGeneration (js ''Space'') 10
       [Resolved (Some [Some (js ''c'')]),
        Resolved (Some [Some (js ''p1''), Some (js ''p2''), Some (js ''p3''), Some (js ''p4'')])]
       (page_loaded (js ''Space'') (js ''10''))))
   \<and> empty_or_absent (Resolved (Some []))
   \<and> fst (runGeneration (js ''Space'') 10
       ([Resolved (Some [Some (js ''c'')]),
         Resolved (Some [Some (js ''p1''), Some (js ''p2''), Some (js ''p3''), Some (js ''p4'')])]
        @ Resolved (Some []) # [Resolved (Some [Some (js ''p9'')])])
       (page_loaded (js ''Space'') (js ''10'')))
      = Finished (Failed (Error (js ''Failed to generate pages in batch starting at index 4.'')))
   \<and> map numberOfImages (requests (snd (runGeneration (js ''Space'') 10
       ([Resolved (Some [Some (js ''c'')]),
         Resolved (Some [Some (js ''p1''), Some (js ''p2''), Some (js ''p3''), Some (js ''p4'')])]
        @ Resolved (Some []) # [Resolved (Some [Some (js ''p9'')])])
       (page_loaded (js ''Space'') (js ''10''))))) = [1, 4, 4]
   \<and> length (gallery (snd (runGeneration (js ''Space'') 10
       ([Resolved (Some [Some (js ''c'')]),
         Resolved (Some [Some (js ''p1''), Some (js ''p2''), Some (js ''p3''), Some (js ''p4'')])]
        @ Resolved (Some []) # [Resolved (Some [Some (js ''p9'')])])
       (page_loaded (js ''Space'') (js ''10''))))) = 5
   \<and> downloadControls_hidden (snd (runGeneration (js ''Space'') 10
       ([Resolved (Some [Some (js ''c'')]),
         Resolved (Some [Some (js ''p1''), Some (js ''p2''), Some (js ''p3''), Some (js ''p4'')])]
        @ Resolved (Some []) # [Resolved (Some [Some (js ''p9'')])])
       (page_loaded (js ''Space'') (js ''10''))))"
proof -
  let ?rs1 = "[Resolved (Some [Some (js ''c'')]),
        Resolved (Some [Some (js ''p1''), Some (js ''p2''), Some (js ''p3''), Some (js ''p4'')])]"
  let ?st = "page_loaded (js ''Space'') (js ''10'')"
  have sus: "suspended (fst (runGeneration (js ''Space'') 10 ?rs1 ?st))"
    by code_simp
  have ne: "?rs1 \<noteq> []" by simp
  have emp: "empty_or_absent (Resolved (Some []))"
    by (simp add: empty_or_absent_def)
  have reqs: "map numberOfImages (requests (snd (runGeneration (js ''Space'') 10 ?rs1 ?st))) = [1, 4, 4]"
    by code_simp
  have four: "num_str 4 = js ''4''"
    by code_simp
  from batch_failure_aborts_run [OF sus ne emp, of "[Resolved (Some [Some (js ''p9'')])]"] sus emp reqs
  show ?thesis
    by (simp add: four returned_count_def js_def)
qed

subsection \<open>C5: the busy state after a run\<close>

text \<open>
  C5. Whenever a run is over, with whatever outcome (success, a failed cover or batch, a
  rejected request, a TypeError on a response without image), the busy flag is cleared
  and the submit button is enabled again. And every run is over once the service has
  answered the cover request and each of the \<open>ceil((pageCount - 1) / 4)\<close> batch
  requests (or earlier).
\<close>

theorem busy_state_cleared_on_every_exit:
  "(fst (runGeneration theme numPages rs st) = Finished out \<longrightarrow>
      \<not> isLoading (snd (runGeneration theme numPages rs st))
      \<and> \<not> generateBtn_disabled (snd (runGeneration theme numPages rs st)))
   \<and> (1 + nat \<lceil>real_of_int (numPages - 1) / 4\<rceil> \<le> length rs \<longrightarrow>
        (\<exists>out'. fst (runGeneration theme numPages rs st) = Finished out'))"
proof (intro conjI impI)
  assume fin: "fst (runGeneration theme numPages rs st) = Finished out"
  obtain st' where res: "runGeneration theme numPages rs st = (Finished out, st')"
    using fin by (cases "runGeneration theme numPages rs st") simp
  from run_status [of theme numPages rs st]
  show "\<not> isLoading (snd (runGeneration theme numPages rs st))"
    and "\<not> generateBtn_disabled (snd (runGeneration theme numPages rs st))"
    unfolding res by (cases out; simp add: status_ok_def)+
next
  assume "1 + nat \<lceil>real_of_int (numPages - 1) / 4\<rceil> \<le> length rs"
  then show "\<exists>out'. fst (runGeneration theme numPages rs st) = Finished out'"
    by (rule run_terminates)
qed

theorem busy_state_cleared_on_every_exit_witness:
  "fst (runGeneration (js ''Cats'') 5
      [Resolved (Some [Some (js ''c'')]), Rejected (js ''network down'')]
      (page_loaded (js ''Cats'') (js ''5''))) = Finished (Failed (Rejection (js ''network down'')))
   \<and> 1 + nat \<lceil>real_of_int (5 - 1) / 4\<rceil>
       \<le> length [Resolved (Some [Some (js ''c'')]), Rejected (js ''network down'')]
   \<and> \<not> isLoading (snd (runGeneration (js ''Cats'') 5
      [Resolved (Some [Some (js ''c'')]), Rejected (js ''network down'')]
      (page_loaded (js ''Cats'') (js ''5''))))
   \<and> \<not> generateBtn_disabled (snd (runGeneration (js ''Cats'') 5
      [Resolved (Some [Some (js ''c'')]), Rejected (js ''network down'')]
      (page_loaded (js ''Cats'') (js ''5''))))"
proof -
  let ?rs = "[Resolved (Some [Some (js ''c'')]), Rejected (js ''network down'')]"
  have out: "fst (runGeneration (js ''Cats'') 5 ?rs (page_loaded (js ''Cats'') (js ''5'')))
      = Finished (Failed (Rejection (js ''network down'')))"
    by code_simp
  have enough: "1 + nat \<lceil>real_of_int (5 - 1) / 4\<rceil> \<le> length ?rs"
    by simp
  from busy_state_cleared_on_every_exit
    [of "js ''Cats''" 5 ?rs "page_loaded (js ''Cats'') (js ''5'')" "Failed (Rejection (js ''network down''))"]
    out enough
  show ?thesis by simp
qed

subsection \<open>C6: one run at a time\<close>

text \<open>
  C6. Start from a page on which nothing is running, and let any events happen:
  submissions, responses of the service, edits of the inputs. At every point at most one
  run is waiting, the busy flag is set exactly while a run is waiting, and a submission
  made while a run is waiting changes nothing at all: no run is started, no request is
  made, no page is added.
\<close>

theorem at_most_one_run_in_flight:
  assumes "sys_runs sys0 = []" and "\<not> isLoading (sys_state sys0)"
  shows "length (sys_runs (exec evs sys0)) \<le> 1
       \<and> isLoading (sys_state (exec evs sys0)) = (sys_runs (exec evs sys0) \<noteq> [])
       \<and> (sys_runs (exec evs sys0) \<noteq> [] \<longrightarrow> exec (evs @ [Submit]) sys0 = exec evs sys0)"
proof -
  have "one_run sys0"
    using assms by (simp add: one_run_def)
  then have inv: "one_run (exec evs sys0)"
    by (rule exec_one_run)
  have "exec (evs @ [Submit]) sys0 = exec evs sys0" if "sys_runs (exec evs sys0) \<noteq> []"
    using inv that by (simp add: exec_def one_run_def submit_busy)
  with inv show ?thesis
    by (simp add: one_run_def)
qed

theorem at_most_one_run_in_flight_witness:
  "sys_runs \<lparr>sys_state = page_loaded (js ''Cats'') (js ''5''), sys_runs = []\<rparr> = []
   \<and> \<not> isLoading (sys_state \<lparr>sys_state = page_loaded (js ''Cats'') (js ''5''), sys_runs = []\<rparr>)
   \<and> sys_runs (exec [Submit] \<lparr>sys_state = page_loaded (js ''Cats'') (js ''5''), sys_runs = []\<rparr>)
       = [AwaitCover (js ''Cats'') 5]
   \<and> isLoading (sys_state (exec [Submit] \<lparr>sys_state = page_loaded (js ''Cats'') (js ''5''), sys_runs = []\<rparr>))
   \<and> exec ([Submit] @ [Submit]) \<lparr>sys_state = page_loaded (js ''Cats'') (js ''5''), sys_runs = []\<rparr>
       = exec [Submit] \<lparr>sys_state = page_loaded (js ''Cats'') (js ''5''), sys_runs = []\<rparr>"
proof -
  let ?S0 = "\<lparr>sys_state = page_loaded (js ''Cats'') (js ''5''), sys_runs = []\<rparr>"
  have idle: "sys_runs ?S0 = []" "\<not> isLoading (sys_state ?S0)"
    by (simp_all add: page_loaded_def)
  have runs: "sys_runs (exec [Submit] ?S0) = [AwaitCover (js ''Cats'') 5]"
    by code_simp
  from at_most_one_run_in_flight [OF idle, of "[Submit]"] idle runs
  show ?thesis by simp
qed

subsection \<open>C7: the file name made from the theme\<close>

text \<open>
  C7. Filename sanitization trims the theme and turns every run of white space inside it
  into one underscore: a theme made of words separated by gaps, with any white space
  before and after, becomes its words joined by single underscores; a theme of white
  space only becomes the empty string. In particular \<open>" My   Theme "\<close> becomes
  \<open>"My_Theme"\<close>. The result holds no white space, and sanitizing it again changes
  nothing.
\<close>

theorem sanitize_trims_collapses_idempotent:
  "sanitize (js '' My   Theme '') = js ''My_Theme''
   \<and> sanitize (sanitize s) = sanitize s
   \<and> list_all (\<lambda>c. \<not> is_ws c) (sanitize s)
   \<and> (list_all is_ws lead \<and> list_all is_ws trail \<and> well_spaced wgs \<and> is_word lw \<longrightarrow>
        sanitize (lead @ concat (map (\<lambda>(w, g). w @ g) wgs) @ lw @ trail)
          = concat (map (\<lambda>(w, g). w @ js ''_'') wgs) @ lw)
   \<and> (list_all is_ws blank \<longrightarrow> sanitize blank = [])"
proof (intro conjI impI)
  show "sanitize (js '' My   Theme '') = js ''My_Theme''"
    by (simp add: sanitize_def trim_def js_def is_ws_def)
  show "sanitize (sanitize s) = sanitize s"
    by (rule sanitize_idem)
  show "list_all (\<lambda>c. \<not> is_ws c) (sanitize s)"
    using sanitize_no_ws [of s] by (simp add: list_all_iff)
  show "sanitize blank = []" if "list_all is_ws blank"
    using that by (simp add: sanitize_def trim_all_ws)
  show "sanitize (lead @ concat (map (\<lambda>(w, g). w @ g) wgs) @ lw @ trail)
          = concat (map (\<lambda>(w, g). w @ js ''_'') wgs) @ lw"
    if "list_all is_ws lead \<and> list_all is_ws trail \<and> well_spaced wgs \<and> is_word lw"
    using that sanitize_words [of lead trail wgs lw] by (simp add: js_def)
qed

theorem sanitize_trims_collapses_idempotent_witness:
  "list_all is_ws (js '' '') \<and> list_all is_ws (js ''  '')
   \<and> well_spaced [(js ''Deep'', js ''   ''), (js ''Sea'', js '' '')] \<and> is_word (js ''Fish'')
   \<and> sanitize (js '' '' @ concat (map (\<lambda>(w, g). w @ g) [(js ''Deep'', js ''   ''), (js ''Sea'', js '' '')])
                 @ js ''Fish'' @ js ''  '')
       = js ''Deep_Sea_Fish''
   \<and> sanitize (js ''Deep_Sea_Fish'') = js ''Deep_Sea_Fish''
   \<and> sanitize (js ''  '') = []"
  using sanitize_trims_collapses_idempotent
    [of "js '' Deep   Sea Fish  ''" "js '' ''" "js ''  ''"
        "[(js ''Deep'', js ''   ''), (js ''Sea'', js '' '')]" "js ''Fish''" "js ''  ''"]
  by (simp add: well_spaced_def is_word_def js_def is_ws_def sanitize_def trim_def)

subsection \<open>C8: the document export\<close>

text \<open>
  C8. With no image of a page other than the cover in the gallery, \<open>downloadAsPdf\<close>
  makes no call to the library. Otherwise it creates one document, places the first
  image on the initial page, and before each later image adds exactly one page; so the
  document has one page for each image, in the order of the gallery, and is saved once.
  Every image is placed 10 from the left and from the top with the width and height of
  the page less 20, that is with the same margin on all four sides, whatever the
  proportions of the image.
\<close>

theorem pdf_export_one_page_per_image:
  "(coloring_images st = [] \<longrightarrow> downloadAsPdf pageWidth pageHeight st = [])
   \<and> (coloring_images st \<noteq> [] \<longrightarrow>
        downloadAsPdf pageWidth pageHeight st
          = NewDoc (js ''portrait'') (js ''mm'') (js ''a4'')
            # AddImage (fitted pageWidth pageHeight (hd (coloring_images st)))
            # concat (map (\<lambda>src. [AddPage, AddImage (fitted pageWidth pageHeight src)])
                        (tl (coloring_images st)))
            @ [Save (sanitize (themeInput_value st) @ js ''_coloring_book.pdf'')]
        \<and> pdf_pages (downloadAsPdf pageWidth pageHeight st)
          = map (\<lambda>src. [fitted pageWidth pageHeight src]) (coloring_images st))
   \<and> pl_imageData (fitted pageWidth pageHeight src) = src
   \<and> pl_x (fitted pageWidth pageHeight src) = 10
   \<and> pl_y (fitted pageWidth pageHeight src) = 10
   \<and> pageWidth - (pl_x (fitted pageWidth pageHeight src) + pl_width (fitted pageWidth pageHeight src)) = 10
   \<and> pageHeight - (pl_y (fitted pageWidth pageHeight src) + pl_height (fitted pageWidth pageHeight src)) = 10"
proof (intro conjI impI)
  show "downloadAsPdf pageWidth pageHeight st = []" if "coloring_images st = []"
    using that by (simp add: downloadAsPdf_def coloring_images_def)
next
  assume ne: "coloring_images st \<noteq> []"
  then obtain s ss where c: "coloring_images st = s # ss"
    by (cases "coloring_images st") auto
  show calls: "downloadAsPdf pageWidth pageHeight st
          = NewDoc (js ''portrait'') (js ''mm'') (js ''a4'')
            # AddImage (fitted pageWidth pageHeight (hd (coloring_images st)))
            # concat (map (\<lambda>src. [AddPage, AddImage (fitted pageWidth pageHeight src)])
                        (tl (coloring_images st)))
            @ [Save (sanitize (themeInput_value st) @ js ''_coloring_book.pdf'')]"
    using downloadAsPdf_calls [OF c] by (simp add: c)
  show "pdf_pages (downloadAsPdf pageWidth pageHeight st)
          = map (\<lambda>src. [fitted pageWidth pageHeight src]) (coloring_images st)"
    unfolding downloadAsPdf_calls [OF c] c pdf_pages_def
    by (simp add: pdf_pages_later)
qed (simp_all add: fitted_def)

theorem pdf_export_one_page_per_image_witness:
  "coloring_images ((page_loaded (js ''Sea Life'') (js ''3''))
       \<lparr>gallery := [sample_page True 0 ''c'', sample_page False 1 ''a'', sample_page False 2 ''b'']\<rparr>)
     = [js ''a'', js ''b'']
   \<and> downloadAsPdf 210 297 ((page_loaded (js ''Sea Life'') (js ''3''))
       \<lparr>gallery := [sample_page True 0 ''c'', sample_page False 1 ''a'', sample_page False 2 ''b'']\<rparr>)
     = [NewDoc (js ''portrait'') (js ''mm'') (js ''a4''),
        AddImage (fitted 210 297 (js ''a'')),
        AddPage,
        AddImage (fitted 210 297 (js ''b'')),
        Save (js ''Sea_Life_coloring_book.pdf'')]
   \<and> pdf_pages (downloadAsPdf 210 297 ((page_loaded (js ''Sea Life'') (js ''3''))
       \<lparr>gallery := [sample_page True 0 ''c'', sample_page False 1 ''a'', sample_page False 2 ''b'']\<rparr>))
     = [[fitted 210 297 (js ''a'')], [fitted 210 297 (js ''b'')]]
   \<and> pl_width (fitted 210 297 (js ''a'')) = 190
   \<and> pl_height (fitted 210 297 (js ''a'')) = 277
   \<and> coloring_images (page_loaded (js ''Sea Life'') (js ''3'')) = []
   \<and> downloadAsPdf 210 297 (page_loaded (js ''Sea Life'') (js ''3'')) = []"
proof -
  let ?st = "(page_loaded (js ''Sea Life'') (js ''3''))
       \<lparr>gallery := [sample_page True 0 ''c'', sample_page False 1 ''a'', sample_page False 2 ''b'']\<rparr>"
  have imgs: "coloring_images ?st = [js ''a'', js ''b'']"
    by (simp add: coloring_images_def sample_page_def)
  have none: "coloring_images (page_loaded (js ''Sea Life'') (js ''3'')) = []"
    by (simp add: coloring_images_def page_loaded_def)
  have name: "sanitize (themeInput_value ?st) @ js ''_coloring_book.pdf'' = js ''Sea_Life_coloring_book.pdf''"
    by (simp add: page_loaded_def sanitize_def trim_def js_def is_ws_def)
  note exported = pdf_export_one_page_per_image [of ?st 210 297 "js ''a''"]
  have calls: "downloadAsPdf 210 297 ?st
     = [NewDoc (js ''portrait'') (js ''mm'') (js ''a4''),
        AddImage (fitted 210 297 (js ''a'')),
        AddPage,
        AddImage (fitted 210 297 (js ''b'')),
        Save (js ''Sea_Life_coloring_book.pdf'')]"
    using exported imgs name by simp
  have pages: "pdf_pages (downloadAsPdf 210 297 ?st)
     = [[fitted 210 297 (js ''a'')], [fitted 210 297 (js ''b'')]]"
    using exported imgs by (simp add: pdf_pages_def)
  have w: "pl_width (fitted 210 297 (js ''a'')) = 190"
    and h: "pl_height (fitted 210 297 (js ''a'')) = 277"
    by (simp_all add: fitted_def)
  have no_doc: "downloadAsPdf 210 297 (page_loaded (js ''Sea Life'') (js ''3'')) = []"
    using none pdf_export_one_page_per_image [of "page_loaded (js ''Sea Life'') (js ''3'')" 210 297 "js ''a''"]
    by simp
  from imgs calls pages w h none no_doc show ?thesis
    by blast
qed

subsection \<open>C9: an invalid submission\<close>

text \<open>
  C9, as stated, fails: while a run is waiting the listener returns at line 177 before
  it looks at the inputs, so a submission with a blank theme shows no error.
\<close>

theorem busy_submission_counterexample:
  "invalid_submission (sys_state (exec [Submit, InputTheme (js ''  '')]
      \<lparr>sys_state = page_loaded (js ''Cats'') (js ''5''), sys_runs = []\<rparr>))
   \<and> errorMessage_hidden (sys_state (exec [Submit, InputTheme (js ''  ''), Submit]
      \<lparr>sys_state = page_loaded (js ''Cats'') (js ''5''), sys_runs = []\<rparr>))"
  by code_simp

text \<open>
  C9, amended. A submission with a theme that is empty once trimmed, or with a page
  count that is not a number above 0, never makes a request and never starts a run; and
  when no run is in progress it shows the validation error at once.
\<close>

theorem invalid_submission_shows_error:
  assumes "invalid_submission (sys_state sys)"
  shows "requests (sys_state (submit_listener sys)) = requests (sys_state sys)
       \<and> sys_runs (submit_listener sys) = sys_runs sys
       \<and> (\<not> isLoading (sys_state sys) \<longrightarrow>
            submit_listener sys
              = sys\<lparr>sys_state := displayError (js ''Please enter a valid theme and number of pages.'')
                                  (sys_state sys)\<rparr>
            \<and> \<not> errorMessage_hidden (sys_state (submit_listener sys))
            \<and> errorMessage_textContent (sys_state (submit_listener sys))
                = js ''Please enter a valid theme and number of pages.'')"
proof -
  from assms
  have inv: "\<not> (trim (themeInput_value (sys_state sys)) \<noteq> []
               \<and> greater_zero (parseInt (pagesInput_value (sys_state sys))))"
    by (auto simp: invalid_submission_def greater_zero_def split: option.splits)
  show ?thesis
  proof (cases "isLoading (sys_state sys)")
    case True
    then show ?thesis by (simp add: submit_busy)
  next
    case False
    have "submit_listener sys
        = sys\<lparr>sys_state := displayError (js ''Please enter a valid theme and number of pages.'')
                                  (sys_state sys)\<rparr>"
    proof (cases "trim (themeInput_value (sys_state sys)) = []")
      case True
      with False show ?thesis by (simp add: submit_listener_def Let_def)
    next
      case nonempty: False
      with inv have "\<not> greater_zero (parseInt (pagesInput_value (sys_state sys)))"
        by simp
      with False show ?thesis by (simp add: submit_listener_def Let_def)
    qed
    then show ?thesis by (simp add: displayError_def)
  qed
qed

theorem invalid_submission_shows_error_witness:
  "invalid_submission (page_loaded (js ''Cats'') (js '' -3 pages''))
   \<and> \<not> isLoading (page_loaded (js ''Cats'') (js '' -3 pages''))
   \<and> parseInt (js '' -3 pages'') = Some (- 3)
   \<and> \<not> errorMessage_hidden (sys_state (submit_listener
          \<lparr>sys_state = page_loaded (js ''Cats'') (js '' -3 pages''), sys_runs = []\<rparr>))
   \<and> requests (sys_state (submit_listener
          \<lparr>sys_state = page_loaded (js ''Cats'') (js '' -3 pages''), sys_runs = []\<rparr>)) = []
   \<and> sys_runs (submit_listener
          \<lparr>sys_state = page_loaded (js ''Cats'') (js '' -3 pages''), sys_runs = []\<rparr>) = []"
proof -
  let ?st = "page_loaded (js ''Cats'') (js '' -3 pages'')"
  have p: "parseInt (js '' -3 pages'') = Some (- 3)"
    by code_simp
  have inv: "invalid_submission ?st"
    by (simp add: invalid_submission_def page_loaded_def p)
  have idle: "\<not> isLoading ?st" "requests ?st = []"
    by (simp_all add: page_loaded_def)
  have inv': "invalid_submission (sys_state \<lparr>sys_state = ?st, sys_runs = []\<rparr>)"
    using inv by simp
  note shown = invalid_submission_shows_error [OF inv']
  have "\<not> isLoading (sys_state \<lparr>sys_state = ?st, sys_runs = []\<rparr>)"
    using idle(1) by simp
  with shown
  have err: "\<not> errorMessage_hidden (sys_state (submit_listener \<lparr>sys_state = ?st, sys_runs = []\<rparr>))"
    by blast
  from shown
  have "requests (sys_state (submit_listener \<lparr>sys_state = ?st, sys_runs = []\<rparr>))
      = requests (sys_state \<lparr>sys_state = ?st, sys_runs = []\<rparr>)"
    by blast
  also have "\<dots> = []"
    using idle(2) by simp
  finally have req: "requests (sys_state (submit_listener \<lparr>sys_state = ?st, sys_runs = []\<rparr>)) = []" .
  from shown
  have "sys_runs (submit_listener \<lparr>sys_state = ?st, sys_runs = []\<rparr>)
      = sys_runs \<lparr>sys_state = ?st, sys_runs = []\<rparr>"
    by blast
  also have "\<dots> = []"
    by simp
  finally have runs: "sys_runs (submit_listener \<lparr>sys_state = ?st, sys_runs = []\<rparr>) = []" .
  from inv idle(1) p err req runs show ?thesis
    by blast
qed

subsection \<open>C10: the number of images a batch returns is not checked\<close>

text \<open>
  C10. The number of images a batch response carries is never compared with the number
  asked for. A batch response with a non-empty list never raises the failure of line
  124; when each entry has its image data the run goes on, however many images were
  asked for, and all the images of the response are rendered. So a run
  that ends in success has rendered one page plus as many as the batch responses
  carried; and, for a page count above 0, its pages have the indices
  \<open>0, ..., pageCount - 1\<close> exactly when every batch response carried exactly as
  many images as its request asked for. (Of the cover response only the first image is
  read.)
\<close>

theorem returned_counts_are_not_checked:
  "(batch_ok r \<longrightarrow>
      (\<forall>e. fst (resume (AwaitBatch theme ptg i) r st) \<noteq> Finished (Failed e))
      \<and> length (gallery (snd (resume (AwaitBatch theme ptg i) r st)))
          = length (gallery st) + returned_count r)
   \<and> (fst (runGeneration theme numPages rs st0) = Finished Succeeded \<longrightarrow>
        length (gallery (snd (runGeneration theme numPages rs st0)))
          = 1 + sum_list (map returned_count (take (nat \<lceil>real_of_int (numPages - 1) / 4\<rceil>) (tl rs)))
        \<and> (0 < numPages \<longrightarrow>
             (map page_index (gallery (snd (runGeneration theme numPages rs st0))) = [0 .. numPages - 1])
             = list_all exact_count (batch_exchanges st0 (snd (runGeneration theme numPages rs st0)) rs)))
   \<and> fst (resume (AwaitBatch theme ptg i) (Resolved (Some (g # gs))) st) \<noteq> Finished (Failed (Error m))"
proof (intro conjI impI allI)
  assume ok: "batch_ok r"
  from resume_batch_ok [OF ok, of theme ptg i st]
  obtain ps where ps: "resume (AwaitBatch theme ptg i) r st
        = batch_loop theme ptg (i + 4) (st\<lparr>gallery := gallery st @ ps\<rparr>)"
      "length ps = returned_count r"
    by blast
  show "fst (resume (AwaitBatch theme ptg i) r st) \<noteq> Finished (Failed e)" for e
    unfolding ps(1) by (simp add: batch_loop_result)
  show "length (gallery (snd (resume (AwaitBatch theme ptg i) r st))) = length (gallery st) + returned_count r"
    unfolding ps(1) by (simp add: batch_loop_result ps(2))
next
  assume fin: "fst (runGeneration theme numPages rs st0) = Finished Succeeded"
  show "length (gallery (snd (runGeneration theme numPages rs st0)))
          = 1 + sum_list (map returned_count (take (nat \<lceil>real_of_int (numPages - 1) / 4\<rceil>) (tl rs)))"
    by (rule run_success_length [OF fin])
  show "(map page_index (gallery (snd (runGeneration theme numPages rs st0))) = [0 .. numPages - 1])
             = list_all exact_count (batch_exchanges st0 (snd (runGeneration theme numPages rs st0)) rs)"
    if "0 < numPages"
    by (rule run_exact_iff [OF fin that])
next
  show "fst (resume (AwaitBatch theme ptg i) (Resolved (Some (g # gs))) st) \<noteq> Finished (Failed (Error m))"
    by (rule resume_nonempty)
qed

theorem returned_counts_are_not_checked_witness:
  "batch_ok (Resolved (Some [Some (js ''p1''), Some (js ''p2'')]))
   \<and> fst (resume (AwaitBatch (js ''Cats'') 4 0) (Resolved (Some [Some (js ''p1''), Some (js ''p2'')]))
          (page_loaded (js ''Cats'') (js ''5''))) = Finished Succeeded
   \<and> length (gallery (snd (resume (AwaitBatch (js ''Cats'') 4 0)
          (Resolved (Some [Some (js ''p1''), Some (js ''p2'')])) (page_loaded (js ''Cats'') (js ''5''))))) = 2
   \<and> fst (runGeneration (js ''Cats'') 5
        [Resolved (Some [Some (js ''c'')]), Resolved (Some [Some (js ''p1''), Some (js ''p2'')])]
        (page_loaded (js ''Cats'') (js ''5''))) = Finished Succeeded
   \<and> (0::int) < 5
   \<and> length (gallery (snd (runGeneration (js ''Cats'') 5
        [Resolved (Some [Some (js ''c'')]), Resolved (Some [Some (js ''p1''), Some (js ''p2'')])]
        (page_loaded (js ''Cats'') (js ''5''))))) = 3
   \<and> \<not> list_all exact_count (batch_exchanges (page_loaded (js ''Cats'') (js ''5''))
        (snd (runGeneration (js ''Cats'') 5
          [Resolved (Some [Some (js ''c'')]), Resolved (Some [Some (js ''p1''), Some (js ''p2'')])]
          (page_loaded (js ''Cats'') (js ''5''))))
        [Resolved (Some [Some (js ''c'')]), Resolved (Some [Some (js ''p1''), Some (js ''p2'')])])
   \<and> map page_index (gallery (snd (runGeneration (js ''Cats'') 5
        [Resolved (Some [Some (js ''c'')]), Resolved (Some [Some (js ''p1''), Some (js ''p2'')])]
        (page_loaded (js ''Cats'') (js ''5''))))) \<noteq> [0 .. 5 - 1]"
proof -
  let ?r = "Resolved (Some [Some (js ''p1''), Some (js ''p2'')])"
  let ?rs = "[Resolved (Some [Some (js ''c'')]), ?r]"
  let ?st = "page_loaded (js ''Cats'') (js ''5'')"
  have ok: "batch_ok ?r"
    by (simp add: batch_ok_def)
  have fin: "fst (runGeneration (js ''Cats'') 5 ?rs ?st) = Finished Succeeded"
    by code_simp
  have passes: "fst (resume (AwaitBatch (js ''Cats'') 4 0) ?r ?st) = Finished Succeeded"
    by code_simp
  have inexact: "\<not> list_all exact_count (batch_exchanges ?st (snd (runGeneration (js ''Cats'') 5 ?rs ?st)) ?rs)"
    by code_simp
  have pos: "(0::int) < 5" by simp
  from returned_counts_are_not_checked [of ?r "js ''Cats''" 4 0 ?st 5 ?rs ?st] ok fin passes inexact pos
  show ?thesis
    by (simp add: returned_count_def page_loaded_def)
qed

end
